theory Spec2Isabelle
  imports Complex_Main
begin

section \<open>Conventions\<close>

text \<open>
  The program is the browser script of the typing toy (the feature-complete variant with
  \<^verbatim>\<open>layoutEventsAligned\<close>, \<^verbatim>\<open>stopPlayback\<close> and the smoothing pass).
  JavaScript numbers are modelled as \<^typ>\<open>real\<close>, in two ways. The sections up to the
  application state compute with exact sums, products and quotients; what is proved over them
  does not depend on rounding (which callbacks are registered, which events are kept, which
  branch of a maximum is taken on the examples) or is stated as a property of exact
  arithmetic. The sections on doubles repeat the smoothing pass and the aligned layout with
  every operation rounded to the nearest IEEE double by \<open>fl\<close>; the gaps of the schedule and
  the wrap bound, which do depend on rounding, are proved there. With the identity in place of
  \<open>fl\<close> the rounded definitions are the exact ones (lemmas \<open>smoothedScheduleR_exact\<close>,
  \<open>layoutEventsAlignedR_exact\<close>). JavaScript division never raises; a quotient whose divisor
  is zero is \<^verbatim>\<open>Infinity\<close> or \<^verbatim>\<open>NaN\<close>, which \<open>js_divide\<close> renders as \<open>None\<close>.
  Record fields carry a short prefix where the source name (\<^verbatim>\<open>x\<close>, \<^verbatim>\<open>y\<close>,
  \<^verbatim>\<open>t\<close>, \<^verbatim>\<open>char\<close>) would otherwise capture a variable name.
\<close>

definition js_divide :: "real \<Rightarrow> real \<Rightarrow> real option" where
  "js_divide a b = (if b = 0 then None else Some (a / b))"

definition newline :: char where
  "newline = CHR 0x0A"

definition space :: char where
  "space = CHR '' ''"

section \<open>Palettes and the key-to-note mapping\<close>

text \<open>
  \<^verbatim>\<open>const palettes = { majorC: [...], minorA: [...], pentatonicC: [...] }\<close>:
  the own properties of the object literal.
\<close>

definition majorC :: "string list" where
  "majorC = [''C4'', ''D4'', ''E4'', ''F4'', ''G4'', ''A4'', ''B4'', ''C5'']"

definition minorA :: "string list" where
  "minorA = [''A3'', ''B3'', ''C4'', ''D4'', ''E4'', ''F4'', ''G4'', ''A4'']"

definition pentatonicC :: "string list" where
  "pentatonicC = [''C4'', ''D4'', ''E4'', ''G4'', ''A4'', ''C5'']"

definition palettes :: "string \<rightharpoonup> string list" where
  "palettes = [''majorC'' \<mapsto> majorC, ''minorA'' \<mapsto> minorA, ''pentatonicC'' \<mapsto> pentatonicC]"

text \<open>
  What \<^verbatim>\<open>palettes[paletteName]\<close> can evaluate to. An object literal inherits from
  \<^verbatim>\<open>Object.prototype\<close>, so besides the three arrays the lookup finds the built-in
  methods (functions, whose \<^verbatim>\<open>length\<close> is their declared arity) and, under
  \<^verbatim>\<open>__proto__\<close>, the prototype object itself (which has no \<^verbatim>\<open>length\<close>).
\<close>

datatype js_pool =
    PitchArray "string list"
  | BuiltinFunction nat
  | PrototypeObject

definition objectPrototype :: "string \<rightharpoonup> js_pool" where
  "objectPrototype =
     [''constructor'' \<mapsto> BuiltinFunction 1,
      ''hasOwnProperty'' \<mapsto> BuiltinFunction 1,
      ''isPrototypeOf'' \<mapsto> BuiltinFunction 1,
      ''propertyIsEnumerable'' \<mapsto> BuiltinFunction 1,
      ''toString'' \<mapsto> BuiltinFunction 0,
      ''toLocaleString'' \<mapsto> BuiltinFunction 0,
      ''valueOf'' \<mapsto> BuiltinFunction 0,
      ''__defineGetter__'' \<mapsto> BuiltinFunction 2,
      ''__defineSetter__'' \<mapsto> BuiltinFunction 2,
      ''__lookupGetter__'' \<mapsto> BuiltinFunction 1,
      ''__lookupSetter__'' \<mapsto> BuiltinFunction 1,
      ''__proto__'' \<mapsto> PrototypeObject]"

text \<open>\<^verbatim>\<open>palettes[paletteName]\<close>: own property first, then the prototype; \<open>None\<close> is \<^verbatim>\<open>undefined\<close>.\<close>

definition palettesGet :: "string \<Rightarrow> js_pool option" where
  "palettesGet paletteName =
     (case palettes paletteName of
        Some arr \<Rightarrow> Some (PitchArray arr)
      | None \<Rightarrow> objectPrototype paletteName)"

text \<open>The values a key of the mapping can hold: a pitch name, \<^verbatim>\<open>null\<close> or \<^verbatim>\<open>undefined\<close>.\<close>

datatype note_value = Note string | Null | Undefined

text \<open>\<^verbatim>\<open>pool.length\<close>; \<open>None\<close> is \<^verbatim>\<open>undefined\<close>.\<close>

fun poolLength :: "js_pool \<Rightarrow> nat option" where
  "poolLength (PitchArray arr) = Some (length arr)"
| "poolLength (BuiltinFunction n) = Some n"
| "poolLength PrototypeObject = None"

text \<open>\<^verbatim>\<open>i % pool.length\<close>; \<open>None\<close> is \<^verbatim>\<open>NaN\<close> (modulus zero or \<^verbatim>\<open>undefined\<close>).\<close>

definition poolIndex :: "nat \<Rightarrow> js_pool \<Rightarrow> nat option" where
  "poolIndex i pool =
     (case poolLength pool of
        None \<Rightarrow> None
      | Some n \<Rightarrow> if n = 0 then None else Some (i mod n))"

text \<open>\<^verbatim>\<open>pool[k]\<close>: an array element when \<open>k\<close> is in range, \<^verbatim>\<open>undefined\<close> otherwise.\<close>

fun poolAt :: "js_pool \<Rightarrow> nat option \<Rightarrow> note_value" where
  "poolAt (PitchArray arr) (Some k) = (if k < length arr then Note (arr ! k) else Undefined)"
| "poolAt _ _ = Undefined"

definition letters :: string where
  "letters = ''abcdefghijklmnopqrstuvwxyz''"

text \<open>\<^verbatim>\<open>palettes[paletteName] || palettes.majorC\<close>: arrays, functions and objects are truthy.\<close>

definition resolvePool :: "string \<Rightarrow> js_pool" where
  "resolvePool paletteName =
     (case palettesGet paletteName of
        Some p \<Rightarrow> p
      | None \<Rightarrow> PitchArray majorC)"

text \<open>The body of the \<^verbatim>\<open>for\<close> loop: \<^verbatim>\<open>mapping[letters[i]] = pool[i % pool.length]\<close>.\<close>

definition assignLetter :: "js_pool \<Rightarrow> nat \<Rightarrow> (char \<rightharpoonup> note_value) \<Rightarrow> (char \<rightharpoonup> note_value)" where
  "assignLetter pool i mapping = mapping(letters ! i \<mapsto> poolAt pool (poolIndex i pool))"

definition buildKeyToNote :: "string \<Rightarrow> (char \<rightharpoonup> note_value)" where
  "buildKeyToNote paletteName =
     (let pool = resolvePool paletteName;
          mapping = fold (assignLetter pool) [0 ..< length letters] Map.empty
      in mapping(space \<mapsto> Null, newline \<mapsto> Null))"

section \<open>Events and playback tuning\<close>

text \<open>
  \<^verbatim>\<open>state.events\<close> holds \<^verbatim>\<open>{ char, note, time, x, y }\<close>; \<open>None\<close> is a \<^verbatim>\<open>null\<close> note.
\<close>

record event =
  ev_char :: char
  ev_note :: "string option"
  ev_time :: real
  ev_x :: real
  ev_y :: real

text \<open>The test \<^verbatim>\<open>e.note\<close> of the filters: \<^verbatim>\<open>null\<close> and the empty string are falsy.\<close>

fun truthy :: "string option \<Rightarrow> bool" where
  "truthy None = False"
| "truthy (Some s) = (s \<noteq> [])"

record playbackTuning =
  maxPixelsPerSecond :: real
  minSegmentSec :: real
  noteOverlapSec :: real
  arcLiftMin :: real
  arcLiftMax :: real
  arcLiftFactor :: real
  minTimeBetweenNotes :: real
  maxTimeBetweenNotes :: real
  letterElasticity :: real
  playheadElasticity :: real

definition defaultTuning :: playbackTuning where
  "defaultTuning =
     \<lparr> maxPixelsPerSecond = 700, minSegmentSec = 0.12, noteOverlapSec = 0.06,
       arcLiftMin = 20, arcLiftMax = 60, arcLiftFactor = 0.25,
       minTimeBetweenNotes = 0.08, maxTimeBetweenNotes = 2.0,
       letterElasticity = 0.5, playheadElasticity = 0.8 \<rparr>"

text \<open>The handler of the timing slider scales both thresholds by the same factor.\<close>

definition setTimingFactor :: "real \<Rightarrow> playbackTuning \<Rightarrow> playbackTuning" where
  "setTimingFactor factor tn =
     tn\<lparr> minTimeBetweenNotes := 0.08 * factor, maxTimeBetweenNotes := 2.0 * factor \<rparr>"

text \<open>\<^verbatim>\<open>playheadPresets\<close> and \<^verbatim>\<open>state.playhead\<close> (unset until \<^verbatim>\<open>setPlayheadStyle\<close> runs).\<close>

record playhead =
  className :: string
  speedRatio :: real
  trailScale :: real

definition classic :: playhead where
  "classic = \<lparr> className = '''', speedRatio = 1.0, trailScale = 1.0 \<rparr>"

definition comet :: playhead where
  "comet = \<lparr> className = ''comet'', speedRatio = 0.9, trailScale = 1.5 \<rparr>"

definition star :: playhead where
  "star = \<lparr> className = ''star'', speedRatio = 1.05, trailScale = 1.0 \<rparr>"

definition heart :: playhead where
  "heart = \<lparr> className = ''heart'', speedRatio = 0.95, trailScale = 1.2 \<rparr>"

definition flame :: playhead where
  "flame = \<lparr> className = ''flame'', speedRatio = 0.85, trailScale = 1.8 \<rparr>"

definition kitten :: playhead where
  "kitten = \<lparr> className = ''kitten'', speedRatio = 0.9, trailScale = 1.0 \<rparr>"

definition diamond :: playhead where
  "diamond = \<lparr> className = ''diamond'', speedRatio = 1.1, trailScale = 0.9 \<rparr>"

definition playheadPresets :: "playhead list" where
  "playheadPresets = [classic, comet, star, heart, flame, kitten, diamond]"

text \<open>\<^verbatim>\<open>(state.playhead?.speedRatio) ?? 1.0\<close>.\<close>

fun speedRatioOf :: "playhead option \<Rightarrow> real" where
  "speedRatioOf None = 1.0"
| "speedRatioOf (Some p) = speedRatio p"

section \<open>The note schedule of \<^verbatim>\<open>playSequence\<close>\<close>

text \<open>An entry of \<^verbatim>\<open>rel\<close>: the event spread into a new object, with the relative time \<^verbatim>\<open>t\<close>.\<close>

record rel_event = event +
  rel_t :: real

definition noteEvents :: "event list \<Rightarrow> event list" where
  "noteEvents evs = filter (\<lambda>e. truthy (ev_note e)) evs"

definition withTime :: "event \<Rightarrow> real \<Rightarrow> rel_event" where
  "withTime e t =
     \<lparr> ev_char = ev_char e, ev_note = ev_note e, ev_time = ev_time e,
       ev_x = ev_x e, ev_y = ev_y e, rel_t = t \<rparr>"

text \<open>
  First pass: \<^verbatim>\<open>t = Math.max(0, e.time - startTime)\<close> with \<^verbatim>\<open>startTime = noteEvents[0].time\<close>.
  \<^verbatim>\<open>playSequence\<close> has returned before this point when there is no note-bearing event.
\<close>

fun firstPass :: "event list \<Rightarrow> rel_event list" where
  "firstPass [] = []"
| "firstPass (e0 # es) = map (\<lambda>e. withTime e (max 0 (ev_time e - ev_time e0))) (e0 # es)"

text \<open>
  Second pass, the loop from \<^verbatim>\<open>i = 1\<close>: \<open>prevTime\<close> is the time of the entry before, as the
  loop has left it. The sums are exact here; \<open>clampFromR\<close> rounds them.
\<close>

fun clampFrom :: "playbackTuning \<Rightarrow> real \<Rightarrow> rel_event list \<Rightarrow> rel_event list" where
  "clampFrom tn prevTime [] = []"
| "clampFrom tn prevTime (r # rs) =
     (let timeDiff = rel_t r - prevTime;
          t' = (if timeDiff < minTimeBetweenNotes tn then prevTime + minTimeBetweenNotes tn
                else if timeDiff > maxTimeBetweenNotes tn then prevTime + maxTimeBetweenNotes tn
                else rel_t r)
      in r\<lparr> rel_t := t' \<rparr> # clampFrom tn t' rs)"

fun secondPass :: "playbackTuning \<Rightarrow> rel_event list \<Rightarrow> rel_event list" where
  "secondPass tn [] = []"
| "secondPass tn (r # rs) = r # clampFrom tn (rel_t r) rs"

definition smoothedSchedule :: "playbackTuning \<Rightarrow> event list \<Rightarrow> rel_event list" where
  "smoothedSchedule tn evs = secondPass tn (firstPass (noteEvents evs))"

section \<open>The motion path and the segments of \<^verbatim>\<open>playSequence\<close>\<close>

record point =
  pt_x :: real
  pt_y :: real

text \<open>
  \<^verbatim>\<open>buildMotionPathFromEvents\<close>: \<open>offX\<close> and \<open>offY\<close> are the distances between the
  bounding rectangles of the text area and of the letter sheet. \<open>None\<close> is the \<^verbatim>\<open>null\<close>
  returned when no event qualifies.
\<close>

definition buildMotionPathFromEvents :: "real \<Rightarrow> real \<Rightarrow> event list \<Rightarrow> point list option" where
  "buildMotionPathFromEvents offX offY evs =
     (let points = map (\<lambda>e. \<lparr> pt_x = ev_x e + offX + 32, pt_y = ev_y e + offY + 40 \<rparr>)
                       (filter (\<lambda>e. truthy (ev_note e) \<and> ev_char e \<noteq> newline) evs)
      in if points = [] then None else Some points)"

text \<open>\<^verbatim>\<open>(rel[rel.length - 1].t || 0) + 0.35\<close>, for a non-empty \<^verbatim>\<open>rel\<close>.\<close>

definition totalDurOf :: "rel_event list \<Rightarrow> real" where
  "totalDurOf rel = rel_t (last rel) + 0.35"

text \<open>\<^verbatim>\<open>rel[rel.length - 1].t || 0.0001\<close>.\<close>

definition lastTOf :: "rel_event list \<Rightarrow> real" where
  "lastTOf rel = (if rel_t (last rel) = 0 then 0.0001 else rel_t (last rel))"

record keyframe =
  kf_x :: real
  kf_y :: real
  kf_t :: real

text \<open>
  The time of keyframe \<open>i\<close>: \<^verbatim>\<open>(rel[i]?.t ?? (i / (points.length - 1) * lastT)) / totalDur\<close>,
  replaced by \<^verbatim>\<open>i / Math.max(1, keyframes.length - 1)\<close> when it is not finite.
\<close>

definition keyframeTime :: "rel_event list \<Rightarrow> nat \<Rightarrow> nat \<Rightarrow> real" where
  "keyframeTime rel n i =
     (let numerator =
            (if i < length rel then Some (rel_t (rel ! i))
             else map_option (\<lambda>q. q * lastTOf rel) (js_divide (real i) (real n - 1)))
      in case Option.bind numerator (\<lambda>v. js_divide v (totalDurOf rel)) of
           Some t \<Rightarrow> t
         | None \<Rightarrow> real i / max 1 (real n - 1))"

definition buildKeyframes :: "point list \<Rightarrow> rel_event list \<Rightarrow> keyframe list" where
  "buildKeyframes points rel =
     map (\<lambda>i. \<lparr> kf_x = pt_x (points ! i), kf_y = pt_y (points ! i),
                kf_t = keyframeTime rel (length points) i \<rparr>)
         [0 ..< length points]"

text \<open>\<^verbatim>\<open>Math.hypot(dx, dy)\<close>.\<close>

definition hypot :: "real \<Rightarrow> real \<Rightarrow> real" where
  "hypot dx dy = sqrt (dx\<^sup>2 + dy\<^sup>2)"

text \<open>
  One tween of the timeline: the hop from keyframe \<open>i\<close> to keyframe \<open>i + 1\<close>, with its duration
  and the three points of its arc.
\<close>

record tween =
  tw_index :: nat
  tw_duration :: real
  tw_from :: point
  tw_control :: point
  tw_to :: point

definition makeTween :: "playbackTuning \<Rightarrow> real \<Rightarrow> real \<Rightarrow> nat \<Rightarrow> keyframe \<Rightarrow> keyframe \<Rightarrow> tween" where
  "makeTween tn ratio totalDur i a b =
     (let dx = kf_x b - kf_x a;
          dy = kf_y b - kf_y a;
          dist = hypot dx dy;
          segDur = (kf_t b - kf_t a) * totalDur;
          speedLimited = dist / maxPixelsPerSecond tn;
          segDur = max (minSegmentSec tn) (max segDur speedLimited);
          segDur = segDur / ratio;
          midX = (kf_x a + kf_x b) / 2;
          lift = max (arcLiftMin tn) (min (arcLiftMax tn) (\<bar>kf_x a - kf_x b\<bar> * arcLiftFactor tn))
      in \<lparr> tw_index = i, tw_duration = segDur,
           tw_from = \<lparr> pt_x = kf_x a, pt_y = kf_y a \<rparr>,
           tw_control = \<lparr> pt_x = midX, pt_y = min (kf_y a) (kf_y b) - lift \<rparr>,
           tw_to = \<lparr> pt_x = kf_x b, pt_y = kf_y b \<rparr> \<rparr>)"

text \<open>The loop \<^verbatim>\<open>for (let i = 0; i < keyframes.length - 1; i += 1)\<close>.\<close>

fun buildTweens :: "playbackTuning \<Rightarrow> real \<Rightarrow> real \<Rightarrow> nat \<Rightarrow> keyframe list \<Rightarrow> tween list" where
  "buildTweens tn ratio totalDur i (a # b # ks) =
     makeTween tn ratio totalDur i a b # buildTweens tn ratio totalDur (Suc i) (b # ks)"
| "buildTweens tn ratio totalDur i _ = []"

text \<open>
  The tweens \<^verbatim>\<open>playSequence\<close> puts on the timeline for a log that passes its early returns
  (some note-bearing event, some point).
\<close>

definition playbackTweens ::
    "playbackTuning \<Rightarrow> playhead option \<Rightarrow> real \<Rightarrow> real \<Rightarrow> event list \<Rightarrow> tween list" where
  "playbackTweens tn ph offX offY evs =
     (case buildMotionPathFromEvents offX offY evs of
        None \<Rightarrow> []
      | Some points \<Rightarrow>
          let rel = smoothedSchedule tn evs;
              totalDur = totalDurOf rel;
              keyframes = buildKeyframes points rel
          in buildTweens tn (speedRatioOf ph) totalDur 0 keyframes)"

text \<open>The pixel distance a tween covers and the speed it implies.\<close>

definition tweenDistance :: "tween \<Rightarrow> real" where
  "tweenDistance tw = hypot (pt_x (tw_to tw) - pt_x (tw_from tw)) (pt_y (tw_to tw) - pt_y (tw_from tw))"

section \<open>Layout\<close>

datatype align = Left | Center | Right | Justify

text \<open>
  What the layout reads from the DOM: the width of the bounding rectangle of the text area,
  the computed font size and letter spacing as \<^verbatim>\<open>parseFloat\<close> returns them (\<open>None\<close> is
  \<^verbatim>\<open>NaN\<close>), the computed minimum height, and the width the browser measures for a hidden
  span that shows one character.
\<close>

record container =
  rectWidth :: real
  styleFontSize :: "real option"
  styleLetterSpacing :: "real option"
  styleMinHeight :: "real option"
  glyphWidth :: "char \<Rightarrow> real"

text \<open>\<^verbatim>\<open>parseFloat(style.fontSize) || 24\<close>: \<^verbatim>\<open>NaN\<close> and 0 are falsy.\<close>

definition fontSizeOf :: "container \<Rightarrow> real" where
  "fontSizeOf c = (case styleFontSize c of None \<Rightarrow> 24 | Some f \<Rightarrow> if f = 0 then 24 else f)"

definition lineHeightOf :: "container \<Rightarrow> real" where
  "lineHeightOf c = fontSizeOf c * 1.4"

text \<open>\<^verbatim>\<open>Number.isFinite(letterSpacingPx) ? letterSpacingPx : 0\<close>.\<close>

definition letterSpacingOf :: "container \<Rightarrow> real" where
  "letterSpacingOf c = (case styleLetterSpacing c of None \<Rightarrow> 0 | Some l \<Rightarrow> l)"

text \<open>\<^verbatim>\<open>measureChar\<close>: the measurer shows the empty text for a newline, whose width is 0.\<close>

definition measureChar :: "container \<Rightarrow> char \<Rightarrow> real" where
  "measureChar c ch =
     (if ch = newline then 0 else glyphWidth c ch) + (if ch = space then 0 else letterSpacingOf c)"

record glyph =
  g_char :: char
  g_width :: real

record line =
  glyphs :: "glyph list"
  total :: real

text \<open>The variables of the first loop of \<^verbatim>\<open>layoutEventsAligned\<close>.\<close>

record build_state =
  currentLine :: "glyph list"
  currentWidth :: real
  lines :: "line list"

definition pushLine :: "build_state \<Rightarrow> build_state" where
  "pushLine s =
     s\<lparr> lines := lines s @ [\<lparr> glyphs = currentLine s, total = currentWidth s \<rparr>],
        currentLine := [], currentWidth := 0 \<rparr>"

text \<open>
  The body of \<^verbatim>\<open>for (const ev of events)\<close>. The sums are exact here; \<open>addEventR\<close> rounds
  them.
\<close>

definition addEvent :: "container \<Rightarrow> event \<Rightarrow> build_state \<Rightarrow> build_state" where
  "addEvent c ev s =
     (if ev_char ev = newline then pushLine s
      else
        let w = measureChar c (ev_char ev);
            s' = (if currentLine s \<noteq> [] \<and> currentWidth s + w > rectWidth c then pushLine s else s)
        in s'\<lparr> currentLine := currentLine s' @ [\<lparr> g_char = ev_char ev, g_width = w \<rparr>],
               currentWidth := currentWidth s' + w \<rparr>)"

definition initialBuild :: build_state where
  "initialBuild = \<lparr> currentLine = [], currentWidth = 0, lines = [] \<rparr>"

definition buildLines :: "container \<Rightarrow> event list \<Rightarrow> line list" where
  "buildLines c evs = lines (pushLine (fold (addEvent c) evs initialBuild))"

record position =
  pos_x :: real
  pos_y :: real

text \<open>
  \<^verbatim>\<open>startX\<close> and \<^verbatim>\<open>extraGap\<close> of one non-empty line. The result is \<open>None\<close> when a division
  by zero is evaluated.
\<close>

definition lineStart :: "align \<Rightarrow> real \<Rightarrow> bool \<Rightarrow> line \<Rightarrow> (real \<times> real) option" where
  "lineStart al maxWidth isLast l =
     (if al = Center then
        map_option (\<lambda>q. (max 0 q, 0)) (js_divide (maxWidth - total l) 2)
      else if al = Right then
        Some (max 0 (maxWidth - total l), 0)
      else if al = Justify \<and> \<not> isLast \<and> length (glyphs l) > 1 then
        map_option (\<lambda>q. (0, max 0 q)) (js_divide (maxWidth - total l) (real (length (glyphs l)) - 1))
      else Some (0, 0))"

text \<open>
  The inner loop over the glyphs of a line: \<^verbatim>\<open>gi < glyphs.length - 1\<close> holds exactly when
  glyphs remain after the current one. The sums are exact here; \<open>placeGlyphsR\<close> rounds them.
\<close>

fun placeGlyphs :: "real \<Rightarrow> real \<Rightarrow> real \<Rightarrow> glyph list \<Rightarrow> position list" where
  "placeGlyphs x y extraGap [] = []"
| "placeGlyphs x y extraGap (g # gs) =
     \<lparr> pos_x = x, pos_y = y \<rparr>
       # placeGlyphs (x + g_width g + (if gs \<noteq> [] then extraGap else 0)) y extraGap gs"

text \<open>
  The outer loop over the lines, from the line at height \<open>y\<close> on: \<^verbatim>\<open>li === lines.length - 1\<close>
  holds exactly when no line remains after the current one.
\<close>

fun placeLines :: "align \<Rightarrow> real \<Rightarrow> real \<Rightarrow> real \<Rightarrow> line list \<Rightarrow> position list option" where
  "placeLines al maxWidth lh y [] = Some []"
| "placeLines al maxWidth lh y (l # ls) =
     (if glyphs l = [] then placeLines al maxWidth lh (y + lh) ls
      else
        case lineStart al maxWidth (ls = []) l of
          None \<Rightarrow> None
        | Some (startX, extraGap) \<Rightarrow>
            map_option (\<lambda>ps. placeGlyphs startX y extraGap (glyphs l) @ ps)
                       (placeLines al maxWidth lh (y + lh) ls))"

record layout =
  positions :: "position list"
  lineHeight :: real

definition layoutEventsAligned :: "container \<Rightarrow> event list \<Rightarrow> align \<Rightarrow> layout option" where
  "layoutEventsAligned c evs al =
     map_option (\<lambda>ps. \<lparr> positions = ps, lineHeight = lineHeightOf c \<rparr>)
                (placeLines al (rectWidth c) (lineHeightOf c) 0 (buildLines c evs))"

text \<open>The glyphs of a log in typing order: one per event that is not a newline.\<close>

definition glyphsOf :: "container \<Rightarrow> event list \<Rightarrow> glyph list" where
  "glyphsOf c evs =
     map (\<lambda>ev. \<lparr> g_char = ev_char ev, g_width = measureChar c (ev_char ev) \<rparr>)
         (filter (\<lambda>ev. ev_char ev \<noteq> newline) evs)"

section \<open>The caret of \<^verbatim>\<open>nextCaretPosition\<close>\<close>

text \<open>
  The properties the function keeps on itself; \<open>measurer\<close> tells whether the hidden span
  exists.
\<close>

record caret =
  measurer :: bool
  caret_x :: real
  caret_y :: real
  caret_lineHeight :: real
  spaceWidth :: real
  charWidth :: real

definition nextCaretPosition :: "container \<Rightarrow> char \<Rightarrow> caret \<Rightarrow> position \<times> caret" where
  "nextCaretPosition c ch k =
     (let k1 = (if \<not> measurer k
                then \<lparr> measurer = True, caret_x = 0, caret_y = 0, caret_lineHeight = 36,
                       spaceWidth = glyphWidth c CHR ''M'' * 0.6, charWidth = glyphWidth c CHR ''M'' \<rparr>
                else k);
          mWidth = glyphWidth c (if ch \<noteq> newline \<and> ch \<noteq> space then ch else CHR ''M'');
          baseWidth = (if ch = space then mWidth * 0.6 else if ch = newline then 0 else mWidth);
          padding = 0;
          maxWidth = rectWidth c - padding * 2;
          advance = (if ch = newline then 0
                     else baseWidth + (if ch = space then 0 else letterSpacingOf c));
          k2 = (if ch = newline
                then k1\<lparr> caret_x := 0, caret_y := caret_y k1 + caret_lineHeight k1 \<rparr>
                else if caret_x k1 + advance > maxWidth
                then k1\<lparr> caret_x := 0, caret_y := caret_y k1 + caret_lineHeight k1 \<rparr>
                else k1);
          result = \<lparr> pos_x = caret_x k2, pos_y = caret_y k2 \<rparr>;
          k3 = (if ch = newline then k2 else k2\<lparr> caret_x := caret_x k2 + advance \<rparr>)
      in (result, k3\<lparr> caret_lineHeight := fontSizeOf c * 1.4 \<rparr>))"


section \<open>The alignment rules in the words of the specification\<close>

text \<open>
  These three definitions are not taken from the code. They state the alignment rules as the
  specification words them, to be compared with \<open>layoutEventsAligned\<close>: the start of a line
  (\<open>left\<close>: no offset; \<open>center\<close>: \<open>max(0, (containerWidth - lineTotalWidth) / 2)\<close>; \<open>right\<close>:
  \<open>max(0, containerWidth - lineTotalWidth)\<close>), the share of the extra space each gap receives
  under \<open>justify\<close> (none on the last line and on lines of fewer than two glyphs), and the
  resulting positions of the glyphs of one line.
\<close>

fun spec_startX :: "align \<Rightarrow> real \<Rightarrow> real \<Rightarrow> real" where
  "spec_startX Left containerWidth lineTotalWidth = 0"
| "spec_startX Center containerWidth lineTotalWidth = max 0 ((containerWidth - lineTotalWidth) / 2)"
| "spec_startX Right containerWidth lineTotalWidth = max 0 (containerWidth - lineTotalWidth)"
| "spec_startX Justify containerWidth lineTotalWidth = 0"

definition spec_gapShare :: "align \<Rightarrow> real \<Rightarrow> real \<Rightarrow> nat \<Rightarrow> bool \<Rightarrow> real" where
  "spec_gapShare al containerWidth lineTotalWidth n isLast =
     (if al = Justify \<and> \<not> isLast \<and> 2 \<le> n
      then max 0 (containerWidth - lineTotalWidth) / real (n - 1)
      else 0)"

definition spec_linePositions :: "align \<Rightarrow> real \<Rightarrow> bool \<Rightarrow> real \<Rightarrow> glyph list \<Rightarrow> position list" where
  "spec_linePositions al containerWidth isLast y gs =
     (let widths = map g_width gs; lineTotalWidth = sum_list widths
      in map (\<lambda>gi. \<lparr> pos_x = spec_startX al containerWidth lineTotalWidth
                            + sum_list (take gi widths)
                            + real gi * spec_gapShare al containerWidth lineTotalWidth (length gs) isLast,
                      pos_y = y \<rparr>)
             [0 ..< length gs])"


section \<open>Invariants of the line-building loop\<close>

text \<open>Every line records the sum of the widths of its glyphs.\<close>

definition totalsRight :: "build_state \<Rightarrow> bool" where
  "totalsRight s \<longleftrightarrow>
     currentWidth s = sum_list (map g_width (currentLine s))
   \<and> (\<forall>l \<in> set (lines s). total l = sum_list (map g_width (glyphs l)))"

text \<open>A line of two or more glyphs fits the width.\<close>

definition linesFit :: "real \<Rightarrow> build_state \<Rightarrow> bool" where
  "linesFit W s \<longleftrightarrow>
     (2 \<le> length (currentLine s) \<longrightarrow> currentWidth s \<le> W)
   \<and> (\<forall>l \<in> set (lines s). 2 \<le> length (glyphs l) \<longrightarrow> total l \<le> W)"

text \<open>No line holds more than one glyph, and a line with a glyph has a positive width.\<close>

definition atMostOne :: "build_state \<Rightarrow> bool" where
  "atMostOne s \<longleftrightarrow>
     length (currentLine s) \<le> 1
   \<and> (if currentLine s = [] then currentWidth s = 0 else 0 < currentWidth s)
   \<and> (\<forall>l \<in> set (lines s). length (glyphs l) \<le> 1)"


section \<open>The application state\<close>

text \<open>
  A \<^verbatim>\<open>span.typed-letter\<close> of the text area with the position it is sent to (the end values
  of its tween, or the values written to its style).
\<close>

record letter_el =
  lt_char :: char
  lt_left :: real
  lt_top :: real

text \<open>The object \<^verbatim>\<open>persistToStorage\<close> writes under \<^verbatim>\<open>STORAGE_KEY\<close>.\<close>

record persisted =
  p_theme :: string
  p_pattern :: string
  p_font :: string
  p_palette :: string
  p_events :: "event list"

text \<open>
  The global \<^verbatim>\<open>state\<close> together with what the functions below read and write outside it:
  the text area and its letters, the caret kept on \<^verbatim>\<open>nextCaretPosition\<close>, the cursor
  variables, the local storage, \<^verbatim>\<open>playbackTuning\<close>, and the objects a playback run leaves
  with the libraries: the \<^verbatim>\<open>Tone.Part\<close>s started on the transport, the tweens of the ball
  (with the \<^verbatim>\<open>rel\<close> their callbacks close over), the dots of the trail layer and the state
  of the transport.
\<close>

record app_state =
  theme :: string
  pattern :: string
  fontSerif :: string
  paletteSelect :: string
  events :: "event list"
  align :: align
  textArea :: container
  textAreaHeight :: "real option"
  typedLetters :: "letter_el list"
  caretState :: caret
  cursor :: position
  storage :: "persisted option"
  physicsEnabled :: bool
  physicsWorld :: bool
  letterBodies :: "nat list"
  tuning :: playbackTuning
  playheadStyle :: "playhead option"
  sheetOffsetX :: real
  sheetOffsetY :: real
  parts :: "rel_event list list"
  ballTweens :: "tween list"
  timelineRel :: "rel_event list"
  trailDots :: nat
  transportStarted :: bool

text \<open>
  \<^verbatim>\<open>persistToStorage\<close>; the fallbacks are those of the \<^verbatim>\<open>||\<close> operators. A failing
  \<^verbatim>\<open>setItem\<close> is swallowed by the code and is not modelled.
\<close>

definition persistToStorage :: "app_state \<Rightarrow> app_state" where
  "persistToStorage s =
     s\<lparr> storage := Some \<lparr> p_theme = theme s, p_pattern = pattern s,
                          p_font = (if fontSerif s = [] then ''Playfair Display'' else fontSerif s),
                          p_palette = (if paletteSelect s = [] then ''majorC'' else paletteSelect s),
                          p_events = events s \<rparr> \<rparr>"

definition updateCursorPosition :: "app_state \<Rightarrow> app_state" where
  "updateCursorPosition s =
     s\<lparr> cursor := \<lparr> pos_x = caret_x (caretState s), pos_y = caret_y (caretState s) \<rparr> \<rparr>"

text \<open>\<^verbatim>\<open>Math.max(...values)\<close> for a non-empty array.\<close>

fun maxOf :: "real list \<Rightarrow> real" where
  "maxOf [] = 0"
| "maxOf [v] = v"
| "maxOf (v # vs) = max v (maxOf vs)"

definition minHeightOf :: "container \<Rightarrow> real" where
  "minHeightOf c = (case styleMinHeight c of None \<Rightarrow> 640 | Some m \<Rightarrow> if m = 0 then 640 else m)"

definition updateContainerHeight :: "position list \<Rightarrow> app_state \<Rightarrow> app_state" where
  "updateContainerHeight ps s =
     (if ps = [] then s
      else
        let maxY = maxOf (map pos_y ps);
            requiredHeight = maxY + lineHeightOf (textArea s) + 40;
            finalHeight = max requiredHeight (minHeightOf (textArea s))
        in s\<lparr> textAreaHeight := Some finalHeight \<rparr>)"

text \<open>
  The bodies of the physics world are recorded by the index of the letter they belong to.
  \<^verbatim>\<open>removeLetterBodyByElement\<close> searches from the end and removes the first match.
\<close>

definition removeLetterBodyByElement :: "nat \<Rightarrow> app_state \<Rightarrow> app_state" where
  "removeLetterBodyByElement el s =
     (if \<not> physicsWorld s then s
      else s\<lparr> letterBodies := rev (remove1 el (rev (letterBodies s))) \<rparr>)"

definition clearLetterBodies :: "app_state \<Rightarrow> app_state" where
  "clearLetterBodies s = s\<lparr> letterBodies := [] \<rparr>"

text \<open>
  One step of the loop of \<^verbatim>\<open>reflowExistingLetters\<close>: the letter with index \<open>i\<close>, when it
  exists, is sent to position \<open>i\<close> (or, with physics, dropped from above it).
\<close>

definition reflowLetter :: "position list \<Rightarrow> nat \<Rightarrow> app_state \<Rightarrow> app_state" where
  "reflowLetter ps i s =
     (if i < length (typedLetters s) then
        (if physicsEnabled s
         then s\<lparr> typedLetters := (typedLetters s)[i := (typedLetters s ! i)\<lparr> lt_left := pos_x (ps ! i), lt_top := - 64 \<rparr>],
                 letterBodies := letterBodies s @ [i] \<rparr>
         else s\<lparr> typedLetters := (typedLetters s)[i := (typedLetters s ! i)\<lparr> lt_left := pos_x (ps ! i),
                                                              lt_top := pos_y (ps ! i) \<rparr>] \<rparr>)
      else s)"

text \<open>
  \<^verbatim>\<open>reflowExistingLetters\<close>. The layout has one position per event that is not a newline, so
  the index \<open>ps ! i\<close> of the loop is in range; the layout is never \<open>None\<close>
  (lemma \<open>layoutEventsAligned_rows\<close>).
\<close>

definition reflowExistingLetters :: "app_state \<Rightarrow> app_state" where
  "reflowExistingLetters s =
     (if physicsEnabled s \<and> \<not> physicsWorld s then s
      else if typedLetters s = [] then s
      else
        let s1 = (if physicsEnabled s then clearLetterBodies s else s)
        in case layoutEventsAligned (textArea s1) (events s1) (align s1) of
             None \<Rightarrow> s1
           | Some lay \<Rightarrow>
               let s2 = updateContainerHeight (positions lay) s1;
                   n = length (filter (\<lambda>ev. ev_char ev \<noteq> newline) (events s2));
                   s3 = fold (reflowLetter (positions lay)) [0 ..< n] s2
               in updateCursorPosition s3)"

definition setAlign :: "align \<Rightarrow> app_state \<Rightarrow> app_state" where
  "setAlign al s = persistToStorage (reflowExistingLetters (s\<lparr> align := al \<rparr>))"

definition deleteLast :: "app_state \<Rightarrow> app_state" where
  "deleteLast s =
     (if events s = [] then s
      else
        let lastEv = last (events s);
            s1 = (if ev_char lastEv \<noteq> newline \<and> typedLetters s \<noteq> []
                  then (removeLetterBodyByElement (length (typedLetters s) - 1) s)
                         \<lparr> typedLetters := butlast (typedLetters s) \<rparr>
                  else s);
            s2 = s1\<lparr> events := butlast (events s1) \<rparr>;
            s3 = persistToStorage s2;
            s4 = reflowExistingLetters s3
        in updateCursorPosition s4)"

text \<open>\<^verbatim>\<open>recordEvent\<close>; \<open>now\<close> is the value of \<^verbatim>\<open>Tone.now()\<close>.\<close>

definition recordEvent :: "char \<Rightarrow> string option \<Rightarrow> position \<Rightarrow> real \<Rightarrow> app_state \<Rightarrow> app_state" where
  "recordEvent ch nt pos now s =
     persistToStorage
       (s\<lparr> events := events s @ [\<lparr> ev_char = ch, ev_note = nt, ev_time = now,
                                     ev_x = pos_x pos, ev_y = pos_y pos \<rparr>] \<rparr>)"

text \<open>\<^verbatim>\<open>createLetterSpan\<close>: the new span is appended and sent to \<open>(x, y)\<close>.\<close>

definition createLetterSpan :: "char \<Rightarrow> real \<Rightarrow> real \<Rightarrow> app_state \<Rightarrow> app_state" where
  "createLetterSpan ch x y s =
     (if \<not> physicsEnabled s
      then s\<lparr> typedLetters := typedLetters s @ [\<lparr> lt_char = ch, lt_left = x, lt_top = y \<rparr>] \<rparr>
      else s\<lparr> typedLetters := typedLetters s @ [\<lparr> lt_char = ch, lt_left = x, lt_top = - 64 \<rparr>],
              letterBodies := letterBodies s @ [length (typedLetters s)] \<rparr>)"

text \<open>
  The block of \<^verbatim>\<open>restoreFromStorage\<close> and of \<^verbatim>\<open>handleImportJson\<close> that rebuilds the log:
  the caret is reset, and each stored event is placed by \<^verbatim>\<open>nextCaretPosition\<close>.
\<close>

definition restoreOne :: "real \<Rightarrow> event \<Rightarrow> app_state \<Rightarrow> app_state" where
  "restoreOne now ev s =
     (let (pos, k) = nextCaretPosition (textArea s) (ev_char ev) (caretState s);
          s1 = s\<lparr> caretState := k \<rparr>;
          s2 = (if ev_char ev \<noteq> newline
                then createLetterSpan (ev_char ev) (pos_x pos) (pos_y pos) s1 else s1)
      in recordEvent (ev_char ev) (ev_note ev) pos now s2)"

definition restoreEvents :: "real \<Rightarrow> event list \<Rightarrow> app_state \<Rightarrow> app_state" where
  "restoreEvents now stored s =
     (let s1 = (if measurer (caretState s)
                then s\<lparr> caretState := (caretState s)\<lparr> measurer := False, caret_x := 0, caret_y := 0 \<rparr> \<rparr>
                else s)
      in fold (restoreOne now) stored (s1\<lparr> events := [] \<rparr>))"

section \<open>Playback runs\<close>

text \<open>
  \<^verbatim>\<open>stopPlayback\<close>: the tweens of the ball are killed, the trail is emptied and a started
  transport is stopped. The parts on the transport are not touched.
\<close>

definition stopPlayback :: "app_state \<Rightarrow> app_state" where
  "stopPlayback s =
     s\<lparr> ballTweens := [], trailDots := 0,
        transportStarted := (if transportStarted s then False else transportStarted s) \<rparr>"

text \<open>\<^verbatim>\<open>playSequence\<close>, from its first line to the start of the transport.\<close>

definition playSequence :: "app_state \<Rightarrow> app_state" where
  "playSequence s =
     (if events s = [] then s
      else if noteEvents (events s) = [] then s
      else
        let s1 = stopPlayback s
        in case buildMotionPathFromEvents (sheetOffsetX s1) (sheetOffsetY s1) (events s1) of
             None \<Rightarrow> s1
           | Some points \<Rightarrow>
               let rel = smoothedSchedule (tuning s1) (events s1);
                   s2 = s1\<lparr> parts := parts s1 @ [rel] \<rparr>;
                   totalDur = totalDurOf rel;
                   s3 = s2\<lparr> ballTweens := [], trailDots := 0 \<rparr>;
                   keyframes = buildKeyframes points rel;
                   tws = buildTweens (tuning s3) (speedRatioOf (playheadStyle s3)) totalDur 0 keyframes
               in s3\<lparr> ballTweens := tws, timelineRel := rel, transportStarted := True \<rparr>)"

text \<open>
  The calls of \<^verbatim>\<open>triggerAttackRelease\<close> a state still has in store. A part sounds each of
  its entries whose note is truthy, whenever the transport runs; the pair is the number of
  the part (in order of creation) and the index of the entry.
\<close>

definition partTriggers :: "rel_event list list \<Rightarrow> (nat \<times> nat) list" where
  "partTriggers ps =
     concat (map (\<lambda>k. map (\<lambda>i. (k, i))
                           (filter (\<lambda>i. truthy (ev_note (ps ! k ! i))) [0 ..< length (ps ! k)]))
                 [0 ..< length ps])"

text \<open>
  A tween sounds, through \<^verbatim>\<open>playNoteAtIndex\<close>, entry 0 when it starts (the first tween
  only) and entry \<open>i + 1\<close> when it completes; \<^verbatim>\<open>e?.note\<close> must be truthy.
\<close>

definition playNoteAtIndex :: "rel_event list \<Rightarrow> nat \<Rightarrow> nat list" where
  "playNoteAtIndex rel idx = (if idx < length rel \<and> truthy (ev_note (rel ! idx)) then [idx] else [])"

definition tweenTriggers :: "rel_event list \<Rightarrow> tween list \<Rightarrow> nat list" where
  "tweenTriggers rel tws =
     concat (map (\<lambda>tw. (if tw_index tw = 0 then playNoteAtIndex rel 0 else [])
                        @ playNoteAtIndex rel (tw_index tw + 1)) tws)"

text \<open>
  The letters a run of \<^verbatim>\<open>nextCaretPosition\<close> over a list of events creates, from a given
  caret on (physics off): the projection of \<open>restoreEvents\<close> onto the text area.
\<close>

fun caretLetters :: "container \<Rightarrow> caret \<Rightarrow> event list \<Rightarrow> letter_el list" where
  "caretLetters c k [] = []"
| "caretLetters c k (ev # evs) =
     (let (pos, k') = nextCaretPosition c (ev_char ev) k
      in (if ev_char ev \<noteq> newline
          then [\<lparr> lt_char = ev_char ev, lt_left = pos_x pos, lt_top = pos_y pos \<rparr>] else [])
         @ caretLetters c k' evs)"


section \<open>IEEE double arithmetic\<close>

text \<open>
  The sections above compute with exact reals. JavaScript numbers are IEEE 754 doubles: every
  arithmetic operation returns the double nearest to the exact result, ties going to the even
  significand. \<open>fl\<close> is that rounding: a double other than zero is an integer multiple of
  \<open>2 powi ulpExp x\<close>, the spacing of the doubles around \<open>x\<close> (53 significant bits, the
  subnormal spacing \<open>2 powi - 1074\<close> at the bottom). Overflow to \<^verbatim>\<open>Infinity\<close> (results beyond
  about \<open>1.8e308\<close>) is not modelled.
\<close>

text \<open>
  The binade of \<open>x\<close> is the exponent \<open>b\<close> with \<open>2 powi b \<le> \<bar>x\<bar> < 2 powi (b + 1)\<close>, found by
  halving a magnitude from 2 on and doubling one below 1.
\<close>

function binadeUp :: "real \<Rightarrow> int" where
  "binadeUp x = (if x < 2 then 0 else binadeUp (x / 2) + 1)"
  by pat_completeness auto
termination
proof (relation "measure (\<lambda>x. nat \<lfloor>x\<rfloor>)")
  show "wf (measure (\<lambda>x. nat \<lfloor>x\<rfloor>))" by simp
next
  fix x :: real assume "\<not> x < 2"
  then have x: "2 \<le> x" by simp
  then have "x / 2 \<le> x - 1" by simp
  then have "\<lfloor>x / 2\<rfloor> \<le> \<lfloor>x - 1\<rfloor>" by (rule floor_mono)
  moreover have "2 \<le> \<lfloor>x\<rfloor>" using x by (simp add: le_floor_iff)
  ultimately show "(x / 2, x) \<in> measure (\<lambda>x. nat \<lfloor>x\<rfloor>)" by simp
qed

function binadeDown :: "real \<Rightarrow> int" where
  "binadeDown x = (if 1 \<le> x \<or> x \<le> 0 then 0 else binadeDown (2 * x) - 1)"
  by pat_completeness auto
termination
proof (relation "measure (\<lambda>x. nat \<lceil>1 / x\<rceil>)")
  show "wf (measure (\<lambda>x. nat \<lceil>1 / x\<rceil>))" by simp
next
  fix x :: real assume "\<not> (1 \<le> x \<or> x \<le> 0)"
  then have x: "0 < x" "x < 1" by simp_all
  define n where "n = \<lceil>1 / x\<rceil>"
  have "1 < 1 / x" using x by simp
  then have "1 < n" unfolding n_def by (simp add: less_ceiling_iff)
  then have n2: "2 \<le> n" by simp
  have "1 / x \<le> of_int n" unfolding n_def by (rule le_of_int_ceiling)
  then have "1 / (2 * x) \<le> of_int n / 2" by simp
  also have "\<dots> \<le> of_int (n - 1)" using n2 by simp
  finally have "\<lceil>1 / (2 * x)\<rceil> \<le> n - 1" by (rule ceiling_le)
  with n2 have "nat \<lceil>1 / (2 * x)\<rceil> < nat n" by linarith
  then show "(2 * x, x) \<in> measure (\<lambda>x. nat \<lceil>1 / x\<rceil>)" by (simp only: in_measure n_def)
qed

definition binade :: "real \<Rightarrow> int" where
  "binade x = (if 1 \<le> \<bar>x\<bar> then binadeUp \<bar>x\<bar> else binadeDown \<bar>x\<bar>)"

declare binadeUp.simps [simp del] binadeDown.simps [simp del]

definition ulpExp :: "real \<Rightarrow> int" where
  "ulpExp x = max (binade x - 52) (- 1074)"

definition roundTiesEven :: "real \<Rightarrow> int" where
  "roundTiesEven y =
     (let f = \<lfloor>y\<rfloor>; d = y - of_int f
      in if d < 1 / 2 then f else if 1 / 2 < d then f + 1 else if even f then f else f + 1)"

definition fl :: "real \<Rightarrow> real" where
  "fl x = (if x = 0 then 0
           else of_int (roundTiesEven (x / 2 powi ulpExp x)) * 2 powi ulpExp x)"

section \<open>The note schedule in doubles\<close>

text \<open>
  The two passes of \<^verbatim>\<open>playSequence\<close> once more, with every subtraction and addition rounded
  by \<open>rnd\<close>. With the identity for \<open>rnd\<close> they are \<open>firstPass\<close> and \<open>clampFrom\<close>; with \<open>fl\<close>
  they are what the script computes.
\<close>

fun firstPassR :: "(real \<Rightarrow> real) \<Rightarrow> event list \<Rightarrow> rel_event list" where
  "firstPassR rnd [] = []"
| "firstPassR rnd (e0 # es) =
     map (\<lambda>e. withTime e (max 0 (rnd (ev_time e - ev_time e0)))) (e0 # es)"

fun clampFromR :: "(real \<Rightarrow> real) \<Rightarrow> playbackTuning \<Rightarrow> real \<Rightarrow> rel_event list \<Rightarrow> rel_event list" where
  "clampFromR rnd tn prevTime [] = []"
| "clampFromR rnd tn prevTime (r # rs) =
     (let timeDiff = rnd (rel_t r - prevTime);
          t' = (if timeDiff < minTimeBetweenNotes tn then rnd (prevTime + minTimeBetweenNotes tn)
                else if timeDiff > maxTimeBetweenNotes tn then rnd (prevTime + maxTimeBetweenNotes tn)
                else rel_t r)
      in r\<lparr> rel_t := t' \<rparr> # clampFromR rnd tn t' rs)"

fun secondPassR :: "(real \<Rightarrow> real) \<Rightarrow> playbackTuning \<Rightarrow> rel_event list \<Rightarrow> rel_event list" where
  "secondPassR rnd tn [] = []"
| "secondPassR rnd tn (r # rs) = r # clampFromR rnd tn (rel_t r) rs"

definition smoothedScheduleR :: "(real \<Rightarrow> real) \<Rightarrow> playbackTuning \<Rightarrow> event list \<Rightarrow> rel_event list" where
  "smoothedScheduleR rnd tn evs = secondPassR rnd tn (firstPassR rnd (noteEvents evs))"

text \<open>
  The two thresholds as the doubles their literals denote (the other fields are not read by the
  schedule).
\<close>

definition thresholdsAsDoubles :: "playbackTuning \<Rightarrow> playbackTuning" where
  "thresholdsAsDoubles tn =
     tn\<lparr> minTimeBetweenNotes := fl (minTimeBetweenNotes tn),
         maxTimeBetweenNotes := fl (maxTimeBetweenNotes tn) \<rparr>"


section \<open>The layout in doubles\<close>

text \<open>
  \<^verbatim>\<open>measureChar\<close> and \<^verbatim>\<open>layoutEventsAligned\<close> once more, with every sum, difference, product
  and quotient rounded by \<open>rnd\<close>. The literal \<^verbatim>\<open>1.4\<close> is the double \<open>rnd 1.4\<close>;
  \<^verbatim>\<open>glyphs.length - 1\<close> is exact on integers. With the identity for \<open>rnd\<close> these are the
  definitions of the layout section; with \<open>fl\<close> they are what the script computes, the values read from
  the browser (widths, font size, letter spacing) being doubles already.
\<close>

definition lineHeightOfR :: "(real \<Rightarrow> real) \<Rightarrow> container \<Rightarrow> real" where
  "lineHeightOfR rnd c = rnd (fontSizeOf c * rnd 1.4)"

definition measureCharR :: "(real \<Rightarrow> real) \<Rightarrow> container \<Rightarrow> char \<Rightarrow> real" where
  "measureCharR rnd c ch =
     rnd ((if ch = newline then 0 else glyphWidth c ch) + (if ch = space then 0 else letterSpacingOf c))"

definition addEventR :: "(real \<Rightarrow> real) \<Rightarrow> container \<Rightarrow> event \<Rightarrow> build_state \<Rightarrow> build_state" where
  "addEventR rnd c ev s =
     (if ev_char ev = newline then pushLine s
      else
        let w = measureCharR rnd c (ev_char ev);
            s' = (if currentLine s \<noteq> [] \<and> rnd (currentWidth s + w) > rectWidth c then pushLine s else s)
        in s'\<lparr> currentLine := currentLine s' @ [\<lparr> g_char = ev_char ev, g_width = w \<rparr>],
               currentWidth := rnd (currentWidth s' + w) \<rparr>)"

definition buildLinesR :: "(real \<Rightarrow> real) \<Rightarrow> container \<Rightarrow> event list \<Rightarrow> line list" where
  "buildLinesR rnd c evs = lines (pushLine (fold (addEventR rnd c) evs initialBuild))"

definition lineStartR :: "(real \<Rightarrow> real) \<Rightarrow> align \<Rightarrow> real \<Rightarrow> bool \<Rightarrow> line \<Rightarrow> (real \<times> real) option" where
  "lineStartR rnd al maxWidth isLast l =
     (if al = Center then
        map_option (\<lambda>q. (max 0 (rnd q), 0)) (js_divide (rnd (maxWidth - total l)) 2)
      else if al = Right then
        Some (max 0 (rnd (maxWidth - total l)), 0)
      else if al = Justify \<and> \<not> isLast \<and> length (glyphs l) > 1 then
        map_option (\<lambda>q. (0, max 0 (rnd q)))
                   (js_divide (rnd (maxWidth - total l)) (real (length (glyphs l)) - 1))
      else Some (0, 0))"

fun placeGlyphsR :: "(real \<Rightarrow> real) \<Rightarrow> real \<Rightarrow> real \<Rightarrow> real \<Rightarrow> glyph list \<Rightarrow> position list" where
  "placeGlyphsR rnd x y extraGap [] = []"
| "placeGlyphsR rnd x y extraGap (g # gs) =
     \<lparr> pos_x = x, pos_y = y \<rparr>
       # placeGlyphsR rnd (rnd (x + rnd (g_width g + (if gs \<noteq> [] then extraGap else 0)))) y extraGap gs"

fun placeLinesR :: "(real \<Rightarrow> real) \<Rightarrow> align \<Rightarrow> real \<Rightarrow> real \<Rightarrow> real \<Rightarrow> line list \<Rightarrow> position list option" where
  "placeLinesR rnd al maxWidth lh y [] = Some []"
| "placeLinesR rnd al maxWidth lh y (l # ls) =
     (if glyphs l = [] then placeLinesR rnd al maxWidth lh (rnd (y + lh)) ls
      else
        case lineStartR rnd al maxWidth (ls = []) l of
          None \<Rightarrow> None
        | Some (startX, extraGap) \<Rightarrow>
            map_option (\<lambda>ps. placeGlyphsR rnd startX y extraGap (glyphs l) @ ps)
                       (placeLinesR rnd al maxWidth lh (rnd (y + lh)) ls))"

definition layoutEventsAlignedR :: "(real \<Rightarrow> real) \<Rightarrow> container \<Rightarrow> event list \<Rightarrow> align \<Rightarrow> layout option" where
  "layoutEventsAlignedR rnd c evs al =
     map_option (\<lambda>ps. \<lparr> positions = ps, lineHeight = lineHeightOfR rnd c \<rparr>)
                (placeLinesR rnd al (rectWidth c) (lineHeightOfR rnd c) 0 (buildLinesR rnd c evs))"







section \<open>Example inputs\<close>

text \<open>A short log: three letters typed in quick succession, a line break and a fourth letter.\<close>

definition evA :: event where
  "evA = \<lparr> ev_char = CHR ''a'', ev_note = Some ''C4'', ev_time = 10, ev_x = 0, ev_y = 0 \<rparr>"

definition evB :: event where
  "evB = \<lparr> ev_char = CHR ''b'', ev_note = Some ''D4'', ev_time = 10.01, ev_x = 14, ev_y = 0 \<rparr>"

definition evC :: event where
  "evC = \<lparr> ev_char = CHR ''c'', ev_note = Some ''E4'', ev_time = 10.6, ev_x = 714, ev_y = 0 \<rparr>"

definition evNL :: event where
  "evNL = \<lparr> ev_char = newline, ev_note = None, ev_time = 10.7, ev_x = 0, ev_y = 0 \<rparr>"

definition evD :: event where
  "evD = \<lparr> ev_char = CHR ''d'', ev_note = Some ''F4'', ev_time = 15, ev_x = 0, ev_y = 30 \<rparr>"

text \<open>A text area 100 pixels wide at 24 pixels font size, every glyph 30 pixels wide.\<close>

definition box100 :: container where
  "box100 = \<lparr> rectWidth = 100, styleFontSize = Some 24, styleLetterSpacing = Some 0,
               styleMinHeight = Some 640, glyphWidth = (\<lambda>ch. 30) \<rparr>"

text \<open>The same text area when its measured width is zero.\<close>

definition box0 :: container where
  "box0 = box100\<lparr> rectWidth := 0 \<rparr>"

definition typed :: "string \<Rightarrow> event list" where
  "typed s = map (\<lambda>ch. \<lparr> ev_char = ch, ev_note = None, ev_time = 0, ev_x = 0, ev_y = 0 \<rparr>) s"

text \<open>
  A text area 600 pixels wide at 24 pixels font size with a letter spacing of 0.48 pixels; the
  browser measures 14 pixels for a letter and 6 for a space.
\<close>

definition sheet600 :: container where
  "sheet600 = \<lparr> rectWidth = 600, styleFontSize = Some 24, styleLetterSpacing = Some 0.48,
                styleMinHeight = Some 640,
                glyphWidth = (\<lambda>ch. if ch = space then 6 else 14) \<rparr>"

text \<open>
  The value \<^verbatim>\<open>setFont\<close> gives to \<^verbatim>\<open>--font-serif\<close>: the family between apostrophes,
  followed by \<^verbatim>\<open>, serif\<close>.
\<close>

definition cssFontFamily :: "string \<Rightarrow> string" where
  "cssFontFamily fontFamily = CHR 0x27 # fontFamily @ CHR 0x27 # '', serif''"

text \<open>
  The state after \<^verbatim>\<open>init\<close> on an empty storage, over a given text area: nothing is typed,
  and \<^verbatim>\<open>setFont('Pacifico')\<close> has set the font variable and persisted the empty document.
\<close>

definition freshState :: "container \<Rightarrow> app_state" where
  "freshState c =
     \<lparr> theme = ''classic'', pattern = ''plain'', fontSerif = cssFontFamily ''Pacifico'',
       paletteSelect = ''majorC'',
       events = [], align = Left, textArea = c, textAreaHeight = None, typedLetters = [],
       caretState = \<lparr> measurer = False, caret_x = 0, caret_y = 0, caret_lineHeight = 0,
                      spaceWidth = 0, charWidth = 0 \<rparr>,
       cursor = \<lparr> pos_x = 0, pos_y = 0 \<rparr>,
       storage = Some \<lparr> p_theme = ''classic'', p_pattern = ''plain'',
                       p_font = cssFontFamily ''Pacifico'', p_palette = ''majorC'', p_events = [] \<rparr>,
       physicsEnabled = False, physicsWorld = True, letterBodies = [],
       tuning = defaultTuning, playheadStyle = Some kitten, sheetOffsetX = 0, sheetOffsetY = 0,
       parts = [], ballTweens = [], timelineRel = [], trailDots = 0, transportStarted = False \<rparr>"

text \<open>A stored document: a line break, then \<open>a b\<close>.\<close>

definition storedDoc :: "event list" where
  "storedDoc =
     [\<lparr> ev_char = newline, ev_note = None, ev_time = 1, ev_x = 0, ev_y = 0 \<rparr>,
      \<lparr> ev_char = CHR ''a'', ev_note = Some ''C4'', ev_time = 2, ev_x = 0, ev_y = 0 \<rparr>,
      \<lparr> ev_char = space, ev_note = None, ev_time = 3, ev_x = 0, ev_y = 0 \<rparr>,
      \<lparr> ev_char = CHR ''b'', ev_note = Some ''D4'', ev_time = 4, ev_x = 0, ev_y = 0 \<rparr>]"

text \<open>
  A state whose log is \<open>ab\<close>, with its two letters on screen and the log persisted; the other
  fields are those of the fresh state.
\<close>

definition typedAB :: app_state where
  "typedAB = (freshState sheet600)
     \<lparr> events := [evA, evB],
       typedLetters := [\<lparr> lt_char = CHR ''a'', lt_left = 0, lt_top = 0 \<rparr>,
                   \<lparr> lt_char = CHR ''b'', lt_left = 14.48, lt_top = 0 \<rparr>],
       storage := Some \<lparr> p_theme = ''classic'', p_pattern = ''plain'',
                         p_font = cssFontFamily ''Pacifico'', p_palette = ''majorC'',
                         p_events = [evA, evB] \<rparr> \<rparr>"

text \<open>
  A note typed at the time that the decimal literal \<open>t\<close> denotes as a double, and a log of three
  notes at strictly increasing times.
\<close>

definition noteAt :: "real \<Rightarrow> event" where
  "noteAt t = \<lparr> ev_char = CHR ''a'', ev_note = Some ''C4'', ev_time = fl t, ev_x = 0, ev_y = 0 \<rparr>"

definition threeNotes :: "event list" where
  "threeNotes = [noteAt 0, noteAt 0.6, noteAt 0.61]"


text \<open>
  A text area 56 pixels wide with the letter spacing \<^verbatim>\<open>0.48px\<close> and glyphs measured 10.72
  pixels wide: as the decimal values, and as the doubles the browser reports.
\<close>

definition sheet56 :: container where
  "sheet56 = \<lparr> rectWidth = 56, styleFontSize = Some 24, styleLetterSpacing = Some 0.48,
               styleMinHeight = Some 640, glyphWidth = (\<lambda>ch. 10.72) \<rparr>"

definition sheet56d :: container where
  "sheet56d = \<lparr> rectWidth = 56, styleFontSize = Some 24, styleLetterSpacing = Some (fl 0.48),
                styleMinHeight = Some 640, glyphWidth = (\<lambda>ch. fl 10.72) \<rparr>"


section \<open>Verified properties\<close>

subsection \<open>Key-to-note mapping\<close>

lemma distinct_letters: "distinct letters"
  by (simp add: letters_def)

lemma length_letters: "length letters = 26"
  by (simp add: letters_def)

lemma assignLetter_apply:
  "assignLetter pool n m k = (if k = letters ! n then Some (poolAt pool (poolIndex n pool)) else m k)"
  by (simp add: assignLetter_def)

lemma fold_assignLetter:
  "n \<le> length letters \<Longrightarrow> i < n \<Longrightarrow>
   fold (assignLetter pool) [0 ..< n] m (letters ! i) = Some (poolAt pool (poolIndex i pool))"
proof (induction n)
  case 0
  then show ?case by simp
next
  case (Suc n)
  have step: "fold (assignLetter pool) [0 ..< Suc n] m
                = assignLetter pool n (fold (assignLetter pool) [0 ..< n] m)"
    by simp
  show ?case
  proof (cases "i = n")
    case True
    then show ?thesis unfolding step by (subst assignLetter_apply) simp
  next
    case False
    with Suc.prems have "i < n" by simp
    moreover from Suc.prems have "n \<le> length letters" by simp
    ultimately have ih: "fold (assignLetter pool) [0 ..< n] m (letters ! i) = Some (poolAt pool (poolIndex i pool))"
      by (rule Suc.IH[rotated])
    have "letters ! i \<noteq> letters ! n"
      using distinct_letters Suc.prems False by (simp add: nth_eq_iff_index_eq)
    then show ?thesis using ih unfolding step by (subst assignLetter_apply) simp
  qed
qed

lemma letters_not_blank: "i < length letters \<Longrightarrow> letters ! i \<noteq> space \<and> letters ! i \<noteq> newline"
proof -
  assume "i < length letters"
  then have "letters ! i \<in> set letters" by simp
  moreover have "space \<notin> set letters" "newline \<notin> set letters"
    by (simp_all add: letters_def space_def newline_def)
  ultimately show ?thesis by metis
qed

lemma buildKeyToNote_letter:
  "i < length letters \<Longrightarrow>
   buildKeyToNote P (letters ! i) = Some (poolAt (resolvePool P) (poolIndex i (resolvePool P)))"
  using letters_not_blank[of i] fold_assignLetter[of "length letters" i]
  by (simp add: buildKeyToNote_def Let_def)

lemma palettes_nonempty: "palettes P = Some pool \<Longrightarrow> pool \<noteq> []"
  by (auto simp: palettes_def majorC_def minorA_def pentatonicC_def split: if_splits)

lemma resolvePool_known: "palettes P = Some pool \<Longrightarrow> resolvePool P = PitchArray pool"
  by (simp add: resolvePool_def palettesGet_def)

text \<open>
  Claim C6. For a palette name \<open>P\<close> (an own key of \<open>palettes\<close>, with pool \<open>pool\<close>) the
  mapping built from \<open>P\<close> is a function of \<open>P\<close> alone and gives the \<open>i\<close>-th lowercase letter
  the pitch at index \<open>i mod length pool\<close> of the pool; for every name whatsoever the space and
  the newline are mapped to \<^verbatim>\<open>null\<close>.
\<close>

theorem buildKeyToNote_cycles_pool:
  "length letters = 26
   \<and> (palettes P = Some pool \<longrightarrow>
      (\<forall>i < length letters.
         buildKeyToNote P (letters ! i) = Some (Note (pool ! (i mod length pool)))))
   \<and> buildKeyToNote P space = Some Null
   \<and> buildKeyToNote P newline = Some Null"
proof (intro conjI impI allI)
  show "length letters = 26" by (rule length_letters)
next
  fix i assume p: "palettes P = Some pool" and i: "i < length letters"
  from p have ne: "pool \<noteq> []" by (rule palettes_nonempty)
  then have "i mod length pool < length pool" by simp
  with ne show "buildKeyToNote P (letters ! i) = Some (Note (pool ! (i mod length pool)))"
    using buildKeyToNote_letter[OF i, of P] resolvePool_known[OF p]
    by (simp add: poolIndex_def)
next
  show "buildKeyToNote P space = Some Null"
    by (simp add: buildKeyToNote_def Let_def space_def newline_def)
next
  show "buildKeyToNote P newline = Some Null"
    by (simp add: buildKeyToNote_def Let_def)
qed

theorem buildKeyToNote_cycles_pool_witness:
  "palettes ''pentatonicC'' = Some pentatonicC \<and> (7::nat) < length letters
   \<and> buildKeyToNote ''pentatonicC'' CHR ''h'' = Some (Note ''D4'')
   \<and> buildKeyToNote ''pentatonicC'' space = Some Null"
proof -
  have p: "palettes ''pentatonicC'' = Some pentatonicC"
    by (simp add: palettes_def)
  have i: "(7::nat) < length letters"
    by (simp add: letters_def)
  from buildKeyToNote_cycles_pool[of "''pentatonicC''" pentatonicC] p i
  have "buildKeyToNote ''pentatonicC'' (letters ! 7) = Some (Note (pentatonicC ! (7 mod length pentatonicC)))"
    and "buildKeyToNote ''pentatonicC'' space = Some Null"
    by blast+
  then show ?thesis using p i
    by (simp add: letters_def pentatonicC_def)
qed

lemma resolvePool_constructor: "resolvePool ''constructor'' = BuiltinFunction 1"
  by (simp add: resolvePool_def palettesGet_def palettes_def objectPrototype_def)

text \<open>
  Claim C10. The claim says that every string that is not a known palette falls back to the
  majorC pool, so that each letter gets a note. The fallback \<^verbatim>\<open>|| palettes.majorC\<close> only
  fires when the lookup is \<^verbatim>\<open>undefined\<close>; for a name inherited from \<^verbatim>\<open>Object.prototype\<close>
  the lookup is a function, the fallback is skipped and every letter is stored as
  \<^verbatim>\<open>undefined\<close>. Evaluated at the name \<^verbatim>\<open>constructor\<close>:
\<close>

theorem buildKeyToNote_inherited_name:
  "buildKeyToNote ''constructor'' CHR ''a'' = Some Undefined"
  using buildKeyToNote_letter[of 0 "''constructor''"]
  by (simp add: resolvePool_constructor letters_def poolIndex_def)

lemma buildKeyToNote_fallback:
  "palettes P = None \<Longrightarrow> objectPrototype P = None \<Longrightarrow> i < length letters \<Longrightarrow>
   buildKeyToNote P (letters ! i) = Some (Note (majorC ! (i mod length majorC)))"
  using buildKeyToNote_letter[of i P]
  by (simp add: resolvePool_def palettesGet_def poolIndex_def majorC_def)

subsection \<open>The smoothed note schedule in exact arithmetic\<close>

lemma length_clampFrom: "length (clampFrom tn prev rs) = length rs"
  by (induction rs arbitrary: prev) (simp_all add: Let_def)

lemma clampFrom_gaps:
  assumes "minTimeBetweenNotes tn \<le> maxTimeBetweenNotes tn"
  shows "i < length rs \<Longrightarrow>
         minTimeBetweenNotes tn \<le> (prev # map rel_t (clampFrom tn prev rs)) ! Suc i
                                    - (prev # map rel_t (clampFrom tn prev rs)) ! i
       \<and> (prev # map rel_t (clampFrom tn prev rs)) ! Suc i
            - (prev # map rel_t (clampFrom tn prev rs)) ! i \<le> maxTimeBetweenNotes tn"
proof (induction rs arbitrary: prev i)
  case Nil
  then show ?case by simp
next
  case (Cons r rs)
  define t' where "t' = (if rel_t r - prev < minTimeBetweenNotes tn then prev + minTimeBetweenNotes tn
                else if rel_t r - prev > maxTimeBetweenNotes tn then prev + maxTimeBetweenNotes tn
                else rel_t r)"
  have unfold: "map rel_t (clampFrom tn prev (r # rs)) = t' # map rel_t (clampFrom tn t' rs)"
    by (simp add: Let_def t'_def)
  have first: "minTimeBetweenNotes tn \<le> t' - prev \<and> t' - prev \<le> maxTimeBetweenNotes tn"
    using assms by (auto simp: t'_def)
  show ?case
  proof (cases i)
    case 0
    then show ?thesis using first by (simp add: unfold del: clampFrom.simps)
  next
    case (Suc j)
    with Cons.prems have "j < length rs" by simp
    from Cons.IH[OF this, of t'] show ?thesis by (simp add: unfold Suc del: clampFrom.simps)
  qed
qed

lemma firstPass_head: "firstPass (e0 # es) = withTime e0 0 # map (\<lambda>e. withTime e (max 0 (ev_time e - ev_time e0))) es"
  by simp

lemma smoothedSchedule_times:
  "noteEvents evs = e0 # es \<Longrightarrow>
   map rel_t (smoothedSchedule tn evs)
     = 0 # map rel_t (clampFrom tn 0 (map (\<lambda>e. withTime e (max 0 (ev_time e - ev_time e0))) es))"
  by (simp add: smoothedSchedule_def withTime_def)

text \<open>
  With exact sums in place of doubles every consecutive gap of the smoothed times lies within the
  two thresholds and the times are strictly increasing, for thresholds
  \<open>0 < minTimeBetweenNotes \<le> maxTimeBetweenNotes\<close>. The schedule as the script computes
  it, in doubles, is treated in the section on the schedule in doubles: there the bounds hold up
  to a rounding error only.
\<close>

lemma exact_gaps_within_thresholds:
  assumes "0 < minTimeBetweenNotes tn"
      and "minTimeBetweenNotes tn \<le> maxTimeBetweenNotes tn"
      and "ts = map rel_t (smoothedSchedule tn evs)"
  shows "length ts = length (noteEvents evs)
       \<and> map rel_t (firstPass (noteEvents evs))
           = map (\<lambda>e. max 0 (ev_time e - ev_time (hd (noteEvents evs)))) (noteEvents evs)
       \<and> (ts \<noteq> [] \<longrightarrow> ts ! 0 = 0)
       \<and> (\<forall>i. Suc i < length ts \<longrightarrow>
             minTimeBetweenNotes tn \<le> ts ! Suc i - ts ! i
           \<and> ts ! Suc i - ts ! i \<le> maxTimeBetweenNotes tn
           \<and> ts ! i < ts ! Suc i)"
proof (cases "noteEvents evs")
  case Nil
  then show ?thesis using assms(3) by (simp add: smoothedSchedule_def)
next
  case (Cons e0 es)
  let ?rs = "map (\<lambda>e. withTime e (max 0 (ev_time e - ev_time e0))) es"
  have ts: "ts = 0 # map rel_t (clampFrom tn 0 ?rs)"
    using assms(3) smoothedSchedule_times[OF Cons] by simp
  have len: "length ts = length (noteEvents evs)"
    by (simp add: ts Cons length_clampFrom)
  have fp: "map rel_t (firstPass (noteEvents evs))
           = map (\<lambda>e. max 0 (ev_time e - ev_time (hd (noteEvents evs)))) (noteEvents evs)"
    by (simp add: Cons withTime_def)
  have gaps: "minTimeBetweenNotes tn \<le> ts ! Suc i - ts ! i
           \<and> ts ! Suc i - ts ! i \<le> maxTimeBetweenNotes tn
           \<and> ts ! i < ts ! Suc i" if "Suc i < length ts" for i
  proof -
    from that have "i < length ?rs" by (simp add: ts length_clampFrom)
    from clampFrom_gaps[OF assms(2) this, of 0]
    have g: "minTimeBetweenNotes tn \<le> ts ! Suc i - ts ! i" "ts ! Suc i - ts ! i \<le> maxTimeBetweenNotes tn"
      unfolding ts by blast+
    with assms(1) show ?thesis by linarith
  qed
  show ?thesis using len fp gaps by (simp add: ts)
qed


lemma sched_example: "map rel_t (smoothedSchedule defaultTuning [evA, evB, evC, evNL, evD]) = [0, 0.08, 0.6, 2.6]"
  by (simp add: smoothedSchedule_def noteEvents_def evA_def evB_def evC_def evD_def evNL_def withTime_def defaultTuning_def)

text \<open>The thresholds the timing slider can set satisfy the hypotheses for every positive factor.\<close>

lemma setTimingFactor_thresholds:
  "0 < factor \<Longrightarrow>
   0 < minTimeBetweenNotes (setTimingFactor factor tn)
   \<and> minTimeBetweenNotes (setTimingFactor factor tn) \<le> maxTimeBetweenNotes (setTimingFactor factor tn)"
  by (simp add: setTimingFactor_def)

subsection \<open>Segment durations\<close>

lemma hypot_nonneg: "0 \<le> hypot dx dy"
  by (simp add: hypot_def)

lemma hypot_horizontal: "hypot dx 0 = \<bar>dx\<bar>"
  by (simp add: hypot_def)

lemma makeTween_duration:
  "tw_duration (makeTween tn r totalDur i a b)
     = max (minSegmentSec tn)
           (max ((kf_t b - kf_t a) * totalDur)
                (hypot (kf_x b - kf_x a) (kf_y b - kf_y a) / maxPixelsPerSecond tn)) / r"
  by (simp add: makeTween_def Let_def)

lemma makeTween_distance:
  "tweenDistance (makeTween tn r totalDur i a b) = hypot (kf_x b - kf_x a) (kf_y b - kf_y a)"
  by (simp add: makeTween_def tweenDistance_def Let_def)

lemma makeTween_bounds:
  assumes minpos: "0 < minSegmentSec tn" and ppspos: "0 < maxPixelsPerSecond tn" and rpos: "0 < r"
  shows "minSegmentSec tn / r \<le> tw_duration (makeTween tn r totalDur i a b)"
    and "tweenDistance (makeTween tn r totalDur i a b) / tw_duration (makeTween tn r totalDur i a b)
           \<le> maxPixelsPerSecond tn * r"
proof -
  let ?dist = "hypot (kf_x b - kf_x a) (kf_y b - kf_y a)"
  define D where "D = max (minSegmentSec tn)
           (max ((kf_t b - kf_t a) * totalDur) (?dist / maxPixelsPerSecond tn))"
  have dur: "tw_duration (makeTween tn r totalDur i a b) = D / r"
    by (simp add: makeTween_duration D_def)
  have dist: "tweenDistance (makeTween tn r totalDur i a b) = ?dist"
    by (rule makeTween_distance)
  have D1: "minSegmentSec tn \<le> D" by (simp add: D_def)
  with minpos have Dpos: "0 < D" by linarith
  have "?dist / maxPixelsPerSecond tn \<le> D" by (simp add: D_def)
  with ppspos have D2: "?dist \<le> D * maxPixelsPerSecond tn"
    by (simp add: pos_divide_le_eq)
  show "minSegmentSec tn / r \<le> tw_duration (makeTween tn r totalDur i a b)"
    using D1 rpos by (simp add: dur divide_right_mono)
  have "?dist * r \<le> (D * maxPixelsPerSecond tn) * r"
    using D2 rpos by (rule mult_right_mono[OF _ less_imp_le])
  then have "?dist * r / D \<le> maxPixelsPerSecond tn * r"
    using Dpos by (simp add: pos_divide_le_eq mult.commute mult.left_commute)
  then have "?dist / (D / r) \<le> maxPixelsPerSecond tn * r" by simp
  then show "tweenDistance (makeTween tn r totalDur i a b) / tw_duration (makeTween tn r totalDur i a b)
           \<le> maxPixelsPerSecond tn * r"
    by (simp add: dur dist)
qed

lemma buildTweens_members:
  "tw \<in> set (buildTweens tn r totalDur i ks) \<Longrightarrow>
   \<exists>j a b. tw = makeTween tn r totalDur j a b"
  by (induction tn r totalDur i ks rule: buildTweens.induct) auto

lemma playbackTweens_members:
  "tw \<in> set (playbackTweens tn ph offX offY evs) \<Longrightarrow>
   \<exists>totalDur j a b. tw = makeTween tn (speedRatioOf ph) totalDur j a b"
proof -
  assume mem: "tw \<in> set (playbackTweens tn ph offX offY evs)"
  then obtain points where
    "tw \<in> set (buildTweens tn (speedRatioOf ph) (totalDurOf (smoothedSchedule tn evs)) 0
                    (buildKeyframes points (smoothedSchedule tn evs)))"
    by (cases "buildMotionPathFromEvents offX offY evs") (auto simp: playbackTweens_def Let_def)
  from buildTweens_members[OF this] show ?thesis by blast
qed

lemma length_smoothedSchedule: "length (smoothedSchedule tn evs) = length (noteEvents evs)"
  by (cases "noteEvents evs") (simp_all add: smoothedSchedule_def length_clampFrom)

lemma clampFrom_nonneg:
  assumes "0 \<le> minTimeBetweenNotes tn" and "minTimeBetweenNotes tn \<le> maxTimeBetweenNotes tn"
  shows "0 \<le> prev \<Longrightarrow> \<forall>r \<in> set (clampFrom tn prev rs). 0 \<le> rel_t r"
proof (induction rs arbitrary: prev)
  case Nil
  then show ?case by simp
next
  case (Cons r rs)
  define t' where "t' = (if rel_t r - prev < minTimeBetweenNotes tn then prev + minTimeBetweenNotes tn
                else if rel_t r - prev > maxTimeBetweenNotes tn then prev + maxTimeBetweenNotes tn
                else rel_t r)"
  have t': "0 \<le> t'" using assms Cons.prems by (auto simp: t'_def)
  have "clampFrom tn prev (r # rs) = r\<lparr> rel_t := t' \<rparr> # clampFrom tn t' rs"
    by (simp add: Let_def t'_def)
  with Cons.IH[OF t'] t' show ?case by simp
qed

lemma smoothedSchedule_nonneg:
  assumes "0 \<le> minTimeBetweenNotes tn" and "minTimeBetweenNotes tn \<le> maxTimeBetweenNotes tn"
  shows "\<forall>r \<in> set (smoothedSchedule tn evs). 0 \<le> rel_t r"
proof (cases "noteEvents evs")
  case Nil
  then show ?thesis by (simp add: smoothedSchedule_def)
next
  case (Cons e0 es)
  have "smoothedSchedule tn evs
          = withTime e0 0 # clampFrom tn 0 (map (\<lambda>e. withTime e (max 0 (ev_time e - ev_time e0))) es)"
    by (simp add: smoothedSchedule_def Cons withTime_def)
  then show ?thesis
    using clampFrom_nonneg[OF assms, of 0] by (simp add: withTime_def)
qed

lemma totalDur_positive:
  assumes "0 \<le> minTimeBetweenNotes tn" and "minTimeBetweenNotes tn \<le> maxTimeBetweenNotes tn"
      and "smoothedSchedule tn evs \<noteq> []"
  shows "0 < totalDurOf (smoothedSchedule tn evs)"
proof -
  have "last (smoothedSchedule tn evs) \<in> set (smoothedSchedule tn evs)"
    using assms(3) by simp
  with smoothedSchedule_nonneg[OF assms(1,2)] have "0 \<le> rel_t (last (smoothedSchedule tn evs))"
    by blast
  then show ?thesis by (simp add: totalDurOf_def)
qed

lemma length_buildTweens: "length (buildTweens tn r d j ks) = length ks - 1"
  by (induction tn r d j ks rule: buildTweens.induct) simp_all

lemma buildTweens_nth:
  "Suc i < length ks \<Longrightarrow>
   buildTweens tn r d j ks ! i = makeTween tn r d (j + i) (ks ! i) (ks ! Suc i)"
proof (induction tn r d j ks arbitrary: i rule: buildTweens.induct)
  case (1 tn r d j a b ks)
  then show ?case by (cases i) simp_all
qed simp_all

lemma keyframeTime_scheduled:
  "i < length rel \<Longrightarrow> totalDurOf rel \<noteq> 0 \<Longrightarrow>
   keyframeTime rel n i = rel_t (rel ! i) / totalDurOf rel"
  by (simp add: keyframeTime_def js_divide_def)

lemma path_within_schedule:
  assumes "buildMotionPathFromEvents offX offY evs = Some points"
  shows "length points \<le> length (smoothedSchedule tn evs)" and "points \<noteq> []"
proof -
  from assms have p: "points = map (\<lambda>e. \<lparr> pt_x = ev_x e + offX + 32, pt_y = ev_y e + offY + 40 \<rparr>)
                       (filter (\<lambda>e. truthy (ev_note e) \<and> ev_char e \<noteq> newline) evs)"
    and ne: "points \<noteq> []"
    by (auto simp: buildMotionPathFromEvents_def Let_def split: if_splits)
  have "length (filter (\<lambda>e. truthy (ev_note e) \<and> ev_char e \<noteq> newline) evs)
          \<le> length (filter (\<lambda>e. truthy (ev_note e)) evs)"
    by (induction evs) auto
  then show "length points \<le> length (smoothedSchedule tn evs)"
    by (simp add: p length_smoothedSchedule noteEvents_def)
  show "points \<noteq> []" by (rule ne)
qed

lemma playbackTweens_nth:
  assumes timing: "0 \<le> minTimeBetweenNotes tn" "minTimeBetweenNotes tn \<le> maxTimeBetweenNotes tn"
      and i: "i < length (playbackTweens tn ph offX offY evs)"
  shows "tw_duration (playbackTweens tn ph offX offY evs ! i)
           = max (minSegmentSec tn)
                 (max (rel_t (smoothedSchedule tn evs ! Suc i) - rel_t (smoothedSchedule tn evs ! i))
                      (tweenDistance (playbackTweens tn ph offX offY evs ! i) / maxPixelsPerSecond tn))
             / speedRatioOf ph"
proof -
  let ?rel = "smoothedSchedule tn evs"
  let ?D = "totalDurOf ?rel"
  from i obtain points where path: "buildMotionPathFromEvents offX offY evs = Some points"
    by (cases "buildMotionPathFromEvents offX offY evs") (auto simp: playbackTweens_def)
  let ?ks = "buildKeyframes points ?rel"
  have tws: "playbackTweens tn ph offX offY evs = buildTweens tn (speedRatioOf ph) ?D 0 ?ks"
    by (simp add: playbackTweens_def path Let_def)
  have lk: "length ?ks = length points" by (simp add: buildKeyframes_def)
  from i have si: "Suc i < length points"
    by (simp add: tws length_buildTweens lk)
  with path_within_schedule(1)[OF path, where tn=tn] have sr: "Suc i < length ?rel" by simp
  then have ne: "?rel \<noteq> []" by auto
  have Dpos: "0 < ?D" by (rule totalDur_positive[OF timing ne])
  have ka: "kf_t (?ks ! i) = rel_t (?rel ! i) / ?D"
    using si sr Dpos by (simp add: buildKeyframes_def keyframeTime_scheduled)
  have kb: "kf_t (?ks ! Suc i) = rel_t (?rel ! Suc i) / ?D"
    using si sr Dpos by (simp add: buildKeyframes_def keyframeTime_scheduled)
  have share: "(kf_t (?ks ! Suc i) - kf_t (?ks ! i)) * ?D = rel_t (?rel ! Suc i) - rel_t (?rel ! i)"
    using Dpos by (simp add: ka kb diff_divide_distrib[symmetric])
  have nth: "playbackTweens tn ph offX offY evs ! i
               = makeTween tn (speedRatioOf ph) ?D i (?ks ! i) (?ks ! Suc i)"
    using si by (simp add: tws buildTweens_nth lk)
  show ?thesis
    unfolding nth makeTween_duration makeTween_distance share by (rule refl)
qed

text \<open>
  Claim C2, as amended. The duration of a segment is the maximum of the proportional time share
  (the gap between the two smoothed times), the floor \<open>minSegmentSec\<close> and the speed cap
  \<open>distance / maxPixelsPerSecond\<close>, divided by the speed ratio of the playhead style. So the
  duration is at least \<open>minSegmentSec / speedRatio\<close> and the speed is at most
  \<open>maxPixelsPerSecond * speedRatio\<close>; the bounds \<open>minSegmentSec\<close> and \<open>maxPixelsPerSecond\<close>
  themselves hold when the ratio is at most 1.
\<close>

theorem segment_duration_bounds:
  assumes "0 < minSegmentSec tn" and "0 < maxPixelsPerSecond tn" and "0 < speedRatioOf ph"
      and "i < length (playbackTweens tn ph offX offY evs)"
      and "tw = playbackTweens tn ph offX offY evs ! i"
  shows "(0 \<le> minTimeBetweenNotes tn \<and> minTimeBetweenNotes tn \<le> maxTimeBetweenNotes tn \<longrightarrow>
            tw_duration tw
              = max (minSegmentSec tn)
                    (max (rel_t (smoothedSchedule tn evs ! Suc i) - rel_t (smoothedSchedule tn evs ! i))
                         (tweenDistance tw / maxPixelsPerSecond tn))
                / speedRatioOf ph)
       \<and> minSegmentSec tn / speedRatioOf ph \<le> tw_duration tw
       \<and> tweenDistance tw / tw_duration tw \<le> maxPixelsPerSecond tn * speedRatioOf ph
       \<and> (speedRatioOf ph \<le> 1 \<longrightarrow>
            minSegmentSec tn \<le> tw_duration tw
          \<and> tweenDistance tw / tw_duration tw \<le> maxPixelsPerSecond tn)"
proof -
  from assms(4,5) have mem: "tw \<in> set (playbackTweens tn ph offX offY evs)" by simp
  from playbackTweens_members[OF mem] obtain totalDur j a b
    where tw: "tw = makeTween tn (speedRatioOf ph) totalDur j a b" by blast
  have b1: "minSegmentSec tn / speedRatioOf ph \<le> tw_duration tw"
    and b2: "tweenDistance tw / tw_duration tw \<le> maxPixelsPerSecond tn * speedRatioOf ph"
    unfolding tw using makeTween_bounds[OF assms(1-3)] by blast+
  have b3: "minSegmentSec tn \<le> tw_duration tw
          \<and> tweenDistance tw / tw_duration tw \<le> maxPixelsPerSecond tn" if le: "speedRatioOf ph \<le> 1"
  proof
    have "minSegmentSec tn \<le> minSegmentSec tn / speedRatioOf ph"
      using assms(1,3) le by (simp add: pos_le_divide_eq mult_left_le)
    with b1 show "minSegmentSec tn \<le> tw_duration tw" by linarith
    have "maxPixelsPerSecond tn * speedRatioOf ph \<le> maxPixelsPerSecond tn"
      using assms(2,3) le by (simp add: mult_left_le)
    with b2 show "tweenDistance tw / tw_duration tw \<le> maxPixelsPerSecond tn" by linarith
  qed
  have ex: "tw_duration tw
              = max (minSegmentSec tn)
                    (max (rel_t (smoothedSchedule tn evs ! Suc i) - rel_t (smoothedSchedule tn evs ! i))
                         (tweenDistance tw / maxPixelsPerSecond tn))
                / speedRatioOf ph"
    if "0 \<le> minTimeBetweenNotes tn \<and> minTimeBetweenNotes tn \<le> maxTimeBetweenNotes tn"
    using that playbackTweens_nth[OF _ _ assms(4)] assms(5) by blast
  from ex b1 b2 b3 show ?thesis by blast
qed

lemma tweens_example:
  "playbackTweens defaultTuning (Some diamond) 0 0 [evA, evB, evC]
     = [makeTween defaultTuning 1.1 0.95 0 \<lparr>kf_x = 32, kf_y = 40, kf_t = 0\<rparr> \<lparr>kf_x = 46, kf_y = 40, kf_t = 8 / 95\<rparr>,
        makeTween defaultTuning 1.1 0.95 1 \<lparr>kf_x = 46, kf_y = 40, kf_t = 8 / 95\<rparr> \<lparr>kf_x = 746, kf_y = 40, kf_t = 60 / 95\<rparr>]"
  by (simp add: playbackTweens_def buildMotionPathFromEvents_def smoothedSchedule_def noteEvents_def
      evA_def evB_def evC_def withTime_def defaultTuning_def newline_def diamond_def
      totalDurOf_def buildKeyframes_def keyframeTime_def js_divide_def upt_rec Let_def)

text \<open>
  Claim C2 as stated fails for the styles whose speed ratio exceeds 1 (\<open>star\<close>, \<open>diamond\<close>):
  with \<open>diamond\<close> the hop from \<open>a\<close> to \<open>b\<close> lasts \<open>0.12 / 1.1\<close> seconds, and the hop from
  \<open>b\<close> to \<open>c\<close> covers 700 pixels in \<open>1 / 1.1\<close> seconds.
\<close>

theorem segment_bounds_break_above_unit_speed:
  "tw_duration (playbackTweens defaultTuning (Some diamond) 0 0 [evA, evB, evC] ! 0)
     < minSegmentSec defaultTuning
   \<and> maxPixelsPerSecond defaultTuning
     < tweenDistance (playbackTweens defaultTuning (Some diamond) 0 0 [evA, evB, evC] ! 1)
       / tw_duration (playbackTweens defaultTuning (Some diamond) 0 0 [evA, evB, evC] ! 1)"
  unfolding tweens_example
  by (simp add: makeTween_duration makeTween_distance hypot_horizontal defaultTuning_def)

theorem segment_duration_bounds_witness:
  "0 < minSegmentSec defaultTuning \<and> 0 < maxPixelsPerSecond defaultTuning
   \<and> 0 < speedRatioOf (Some kitten) \<and> speedRatioOf (Some kitten) \<le> 1
   \<and> length (playbackTweens defaultTuning (Some kitten) 0 0 [evA, evB, evC]) = 2
   \<and> minSegmentSec defaultTuning
         \<le> tw_duration (playbackTweens defaultTuning (Some kitten) 0 0 [evA, evB, evC] ! 0)
   \<and> tweenDistance (playbackTweens defaultTuning (Some kitten) 0 0 [evA, evB, evC] ! 0)
         / tw_duration (playbackTweens defaultTuning (Some kitten) 0 0 [evA, evB, evC] ! 0)
         \<le> maxPixelsPerSecond defaultTuning"
proof -
  let ?tws = "playbackTweens defaultTuning (Some kitten) 0 0 [evA, evB, evC]"
  have h1: "0 < minSegmentSec defaultTuning" and h2: "0 < maxPixelsPerSecond defaultTuning"
    by (simp_all add: defaultTuning_def)
  have h3: "0 < speedRatioOf (Some kitten)" and h4: "speedRatioOf (Some kitten) \<le> 1"
    by (simp_all add: kitten_def)
  have len: "length ?tws = 2"
    by (simp add: playbackTweens_def buildMotionPathFromEvents_def smoothedSchedule_def noteEvents_def
        evA_def evB_def evC_def withTime_def newline_def buildKeyframes_def upt_rec Let_def)
  then have i: "0 < length ?tws" by simp
  show ?thesis
    using h1 h2 h3 h4 len segment_duration_bounds[OF h1 h2 h3 i refl] by blast
qed

subsection \<open>Layout: placement in closed form\<close>

lemma placeGlyphs_closed:
  "placeGlyphs x y gap gs
     = map (\<lambda>gi. \<lparr> pos_x = x + sum_list (take gi (map g_width gs)) + real gi * gap, pos_y = y \<rparr>)
           [0 ..< length gs]"
proof (induction gs arbitrary: x)
  case Nil
  then show ?case by simp
next
  case (Cons g gs)
  let ?f = "\<lambda>gi. \<lparr> pos_x = x + sum_list (take gi (map g_width (g # gs))) + real gi * gap, pos_y = y \<rparr>"
  have rhs: "map ?f [0 ..< length (g # gs)] = ?f 0 # map (\<lambda>i. ?f (Suc i)) [0 ..< length gs]"
    by (simp only: list.size add_Suc_right add_0_right map_upt_Suc One_nat_def)
  show ?case
  proof (cases "gs = []")
    case True
    then show ?thesis by simp
  next
    case False
    have "placeGlyphs x y gap (g # gs)
            = \<lparr> pos_x = x, pos_y = y \<rparr> # placeGlyphs (x + g_width g + gap) y gap gs"
      using False by simp
    also have "placeGlyphs (x + g_width g + gap) y gap gs
            = map (\<lambda>gi. \<lparr> pos_x = x + g_width g + gap + sum_list (take gi (map g_width gs)) + real gi * gap,
                           pos_y = y \<rparr>) [0 ..< length gs]"
      by (rule Cons.IH)
    also have "\<dots> = map (\<lambda>i. ?f (Suc i)) [0 ..< length gs]"
      by (rule map_cong) (simp_all add: distrib_right)
    finally show ?thesis
      unfolding rhs by simp
  qed
qed

lemma length_placeGlyphs: "length (placeGlyphs x y gap gs) = length gs"
  by (simp add: placeGlyphs_closed)

lemma justify_gap_eq:
  assumes "2 \<le> n"
  shows "js_divide (W - t) (real n - 1) = Some ((W - t) / real (n - 1))"
    and "max 0 ((W - t) / real (n - 1)) = max 0 (W - t) / real (n - 1)"
proof -
  from assms obtain m where n: "n = Suc m" and m: "0 < m"
    by (cases n) auto
  have pos: "0 < real m" using m by simp
  have d: "real n - 1 = real m" by (simp add: n)
  have e: "n - 1 = m" by (simp add: n)
  show "js_divide (W - t) (real n - 1) = Some ((W - t) / real (n - 1))"
    unfolding d e using pos by (simp add: js_divide_def)
  show "max 0 ((W - t) / real (n - 1)) = max 0 (W - t) / real (n - 1)"
    unfolding e
  proof (cases "0 \<le> W - t")
    case True
    then have "0 \<le> (W - t) / real m" using pos by simp
    with True show "max 0 ((W - t) / real m) = max 0 (W - t) / real m" by (simp add: max_def)
  next
    case False
    then have "(W - t) / real m < 0" using pos by (simp add: divide_neg_pos)
    with False show "max 0 ((W - t) / real m) = max 0 (W - t) / real m" by (simp add: max_def)
  qed
qed

lemma lineStart_total:
  "lineStart al W isLast l
     = Some (spec_startX al W (total l), spec_gapShare al W (total l) (length (glyphs l)) isLast)"
proof (cases al)
  case Left
  then show ?thesis by (simp add: lineStart_def spec_gapShare_def)
next
  case Center
  then show ?thesis by (simp add: lineStart_def js_divide_def spec_gapShare_def)
next
  case Right
  then show ?thesis by (simp add: lineStart_def spec_gapShare_def)
next
  case Justify
  let ?n = "length (glyphs l)"
  have ls: "lineStart al W isLast l
              = (if \<not> isLast \<and> 1 < ?n
                 then map_option (\<lambda>q. (0, max 0 q)) (js_divide (W - total l) (real ?n - 1))
                 else Some (0, 0))"
    by (simp add: lineStart_def Justify)
  have sp: "spec_gapShare al W (total l) ?n isLast
              = (if \<not> isLast \<and> 2 \<le> ?n then max 0 (W - total l) / real (?n - 1) else 0)"
    by (simp add: spec_gapShare_def Justify)
  have sx: "spec_startX al W (total l) = 0"
    by (simp add: Justify)
  show ?thesis
  proof (cases "\<not> isLast \<and> 2 \<le> ?n")
    case True
    then have c: "(\<not> isLast \<and> 1 < ?n) = True" "(\<not> isLast \<and> 2 \<le> ?n) = True"
      by simp_all
    from True have n2: "2 \<le> ?n" by simp
    show ?thesis
      unfolding ls sp sx c if_True justify_gap_eq(1)[OF n2] option.map justify_gap_eq(2)[OF n2]
      by (rule refl)
  next
    case False
    then have c: "(\<not> isLast \<and> 1 < ?n) = False" "(\<not> isLast \<and> 2 \<le> ?n) = False"
      by auto
    show ?thesis
      unfolding ls sp sx c if_False
      by (rule refl)
  qed
qed

lemma placeGlyphs_spec:
  "total l = sum_list (map g_width (glyphs l)) \<Longrightarrow>
   placeGlyphs (spec_startX al W (total l)) y
               (spec_gapShare al W (total l) (length (glyphs l)) isLast) (glyphs l)
     = spec_linePositions al W isLast y (glyphs l)"
  by (simp add: placeGlyphs_closed spec_linePositions_def Let_def)

lemma placeLines_closed:
  "\<forall>l \<in> set ls. total l = sum_list (map g_width (glyphs l)) \<Longrightarrow>
   placeLines al W lh y ls
     = Some (concat (map (\<lambda>li. spec_linePositions al W (li = length ls - 1) (y + real li * lh)
                                   (glyphs (ls ! li)))
                         [0 ..< length ls]))"
proof (induction ls arbitrary: y)
  case Nil
  then show ?case by simp
next
  case (Cons l ls)
  let ?row = "\<lambda>ls y li. spec_linePositions al W (li = length ls - 1) (y + real li * lh) (glyphs (ls ! li))"
  have tl: "total l = sum_list (map g_width (glyphs l))" and rest: "\<forall>l \<in> set ls. total l = sum_list (map g_width (glyphs l))"
    using Cons.prems by simp_all
  have ih: "placeLines al W lh (y + lh) ls = Some (concat (map (?row ls (y + lh)) [0 ..< length ls]))"
    using Cons.IH[OF rest] by simp
  have shift: "map (\<lambda>i. ?row (l # ls) y (Suc i)) [0 ..< length ls] = map (?row ls (y + lh)) [0 ..< length ls]"
  proof (rule map_cong[OF refl])
    fix i assume "i \<in> set [0 ..< length ls]"
    then have i: "i < length ls" by simp
    then have "(Suc i = length (l # ls) - 1) = (i = length ls - 1)" by auto
    moreover have "y + real (Suc i) * lh = y + lh + real i * lh" by (simp add: distrib_right)
    ultimately show "?row (l # ls) y (Suc i) = ?row ls (y + lh) i" by (simp add: add.assoc)
  qed
  have split: "map (?row (l # ls) y) [0 ..< length (l # ls)]
                 = ?row (l # ls) y 0 # map (\<lambda>i. ?row (l # ls) y (Suc i)) [0 ..< length ls]"
    by (simp only: list.size add_Suc_right add_0_right map_upt_Suc One_nat_def)
  have row0: "?row (l # ls) y 0 = spec_linePositions al W (ls = []) y (glyphs l)"
    by simp
  show ?case
  proof (cases "glyphs l = []")
    case True
    then have "spec_linePositions al W (ls = []) y (glyphs l) = []"
      by (simp add: spec_linePositions_def)
    then show ?thesis
      unfolding split shift row0 using True ih by simp
  next
    case False
    have "placeLines al W lh y (l # ls)
            = map_option (\<lambda>ps. placeGlyphs (spec_startX al W (total l)) y
                (spec_gapShare al W (total l) (length (glyphs l)) (ls = [])) (glyphs l) @ ps)
                (placeLines al W lh (y + lh) ls)"
      using False by (simp add: lineStart_total)
    then show ?thesis
      unfolding split shift row0 using ih placeGlyphs_spec[OF tl] by simp
  qed
qed

subsection \<open>Layout: invariants of the line-building loop\<close>

lemma buildLines_eq: "buildLines c evs
     = lines (fold (addEvent c) evs initialBuild)
       @ [\<lparr> glyphs = currentLine (fold (addEvent c) evs initialBuild),
             total = currentWidth (fold (addEvent c) evs initialBuild) \<rparr>]"
  by (simp add: buildLines_def pushLine_def)

lemma addEvent_newline:
  "ev_char ev = newline \<Longrightarrow>
   addEvent c ev s = \<lparr> currentLine = [], currentWidth = 0,
                        lines = lines s @ [\<lparr> glyphs = currentLine s, total = currentWidth s \<rparr>] \<rparr>"
  by (simp add: addEvent_def pushLine_def)

lemma addEvent_wrap:
  "ev_char ev \<noteq> newline \<Longrightarrow> currentLine s \<noteq> [] \<Longrightarrow>
   rectWidth c < currentWidth s + measureChar c (ev_char ev) \<Longrightarrow>
   addEvent c ev s = \<lparr> currentLine = [\<lparr> g_char = ev_char ev, g_width = measureChar c (ev_char ev) \<rparr>],
                        currentWidth = 0 + measureChar c (ev_char ev),
                        lines = lines s @ [\<lparr> glyphs = currentLine s, total = currentWidth s \<rparr>] \<rparr>"
  by (simp add: addEvent_def pushLine_def Let_def)

lemma addEvent_stay:
  "ev_char ev \<noteq> newline \<Longrightarrow>
   \<not> (currentLine s \<noteq> [] \<and> rectWidth c < currentWidth s + measureChar c (ev_char ev)) \<Longrightarrow>
   addEvent c ev s = \<lparr> currentLine = currentLine s @ [\<lparr> g_char = ev_char ev, g_width = measureChar c (ev_char ev) \<rparr>],
                        currentWidth = currentWidth s + measureChar c (ev_char ev),
                        lines = lines s \<rparr>"
  by (auto simp: addEvent_def Let_def)

lemma addEvent_cases:
  obtains (newline) "ev_char ev = newline"
    | (wrap) "ev_char ev \<noteq> newline" "currentLine s \<noteq> []"
             "rectWidth c < currentWidth s + measureChar c (ev_char ev)"
    | (stay) "ev_char ev \<noteq> newline"
             "\<not> (currentLine s \<noteq> [] \<and> rectWidth c < currentWidth s + measureChar c (ev_char ev))"
  by blast

lemma totalsRight_addEvent: "totalsRight s \<Longrightarrow> totalsRight (addEvent c ev s)"
  by (cases rule: addEvent_cases[where ev=ev and s=s and c=c])
     (auto simp: totalsRight_def addEvent_newline addEvent_wrap addEvent_stay)

lemma totalsRight_fold: "totalsRight s \<Longrightarrow> totalsRight (fold (addEvent c) evs s)"
  by (induction evs arbitrary: s) (simp_all add: totalsRight_addEvent)

lemma buildLines_totals:
  "\<forall>l \<in> set (buildLines c evs). total l = sum_list (map g_width (glyphs l))"
proof -
  have "totalsRight (fold (addEvent c) evs initialBuild)"
    by (rule totalsRight_fold) (simp add: totalsRight_def initialBuild_def)
  then show ?thesis by (auto simp: buildLines_eq totalsRight_def)
qed

lemma linesFit_addEvent: "linesFit (rectWidth c) s \<Longrightarrow> linesFit (rectWidth c) (addEvent c ev s)"
proof (cases rule: addEvent_cases[where ev=ev and s=s and c=c])
  case newline
  assume "linesFit (rectWidth c) s"
  then show ?thesis by (auto simp: linesFit_def addEvent_newline[OF newline])
next
  case wrap
  assume "linesFit (rectWidth c) s"
  then show ?thesis by (auto simp: linesFit_def addEvent_wrap[OF wrap])
next
  case stay
  assume fit: "linesFit (rectWidth c) s"
  show ?thesis
  proof (cases "currentLine s = []")
    case True
    with fit show ?thesis by (simp add: linesFit_def addEvent_stay[OF stay])
  next
    case False
    with stay(2) have "currentWidth s + measureChar c (ev_char ev) \<le> rectWidth c" by simp
    with fit show ?thesis by (simp add: linesFit_def addEvent_stay[OF stay])
  qed
qed

lemma linesFit_fold: "linesFit (rectWidth c) s \<Longrightarrow> linesFit (rectWidth c) (fold (addEvent c) evs s)"
  by (induction evs arbitrary: s) (simp_all add: linesFit_addEvent)

lemma buildLines_fit:
  "\<forall>l \<in> set (buildLines c evs). 2 \<le> length (glyphs l) \<longrightarrow> total l \<le> rectWidth c"
proof -
  have "linesFit (rectWidth c) (fold (addEvent c) evs initialBuild)"
    by (rule linesFit_fold) (simp add: linesFit_def initialBuild_def)
  then show ?thesis by (auto simp: buildLines_eq linesFit_def)
qed

text \<open>The lines hold the glyphs of the log, in typing order, each with its measured width.\<close>

lemma addEvent_glyphs:
  "concat (map glyphs (lines (addEvent c ev s))) @ currentLine (addEvent c ev s)
     = concat (map glyphs (lines s)) @ currentLine s @ glyphsOf c [ev]"
  by (cases rule: addEvent_cases[where ev=ev and s=s and c=c])
     (simp_all add: addEvent_newline addEvent_wrap addEvent_stay glyphsOf_def)

lemma glyphsOf_Cons: "glyphsOf c (ev # evs) = glyphsOf c [ev] @ glyphsOf c evs"
  by (simp add: glyphsOf_def)

lemma fold_addEvent_glyphs:
  "concat (map glyphs (lines (fold (addEvent c) evs s))) @ currentLine (fold (addEvent c) evs s)
     = concat (map glyphs (lines s)) @ currentLine s @ glyphsOf c evs"
proof (induction evs arbitrary: s)
  case Nil
  then show ?case by (simp add: glyphsOf_def)
next
  case (Cons ev evs)
  have "concat (map glyphs (lines (fold (addEvent c) (ev # evs) s))) @ currentLine (fold (addEvent c) (ev # evs) s)
          = concat (map glyphs (lines (addEvent c ev s))) @ currentLine (addEvent c ev s) @ glyphsOf c evs"
    using Cons.IH[of "addEvent c ev s"] by simp
  also have "\<dots> = (concat (map glyphs (lines s)) @ currentLine s @ glyphsOf c [ev]) @ glyphsOf c evs"
    using addEvent_glyphs[of c ev s] by simp
  finally show ?case by (simp add: glyphsOf_Cons[of c ev evs])
qed

lemma buildLines_glyphs: "concat (map glyphs (buildLines c evs)) = glyphsOf c evs"
  using fold_addEvent_glyphs[of c evs initialBuild]
  by (simp add: buildLines_eq initialBuild_def)

lemma buildLines_nonempty: "buildLines c evs \<noteq> []"
  by (simp add: buildLines_eq)

text \<open>What one more event does to the lines.\<close>

lemma buildLines_snoc_newline:
  "ev_char ev = newline \<Longrightarrow>
   buildLines c (evs @ [ev]) = buildLines c evs @ [\<lparr> glyphs = [], total = 0 \<rparr>]"
  by (simp add: buildLines_eq addEvent_newline)

lemma buildLines_snoc_glyph:
  assumes "ev_char ev \<noteq> newline"
  shows "buildLines c (evs @ [ev])
     = (let ls = buildLines c evs;
            g = \<lparr> g_char = ev_char ev, g_width = measureChar c (ev_char ev) \<rparr>
        in if glyphs (last ls) \<noteq> [] \<and> rectWidth c < total (last ls) + g_width g
           then ls @ [\<lparr> glyphs = [g], total = g_width g \<rparr>]
           else butlast ls @ [\<lparr> glyphs = glyphs (last ls) @ [g], total = total (last ls) + g_width g \<rparr>])"
proof -
  let ?s = "fold (addEvent c) evs initialBuild"
  show ?thesis
  proof (cases "currentLine ?s \<noteq> [] \<and> rectWidth c < currentWidth ?s + measureChar c (ev_char ev)")
    case True
    then show ?thesis
      using addEvent_wrap[OF assms, of ?s c]
      by (simp add: buildLines_eq Let_def)
  next
    case False
    then show ?thesis
      using addEvent_stay[OF assms, of ?s c]
      by (simp add: buildLines_eq Let_def)
  qed
qed

subsection \<open>Layout: a line under the alignment rules\<close>

lemma sum_take_Suc_le:
  assumes "\<forall>w \<in> set ws. (0::real) \<le> w" and "gi < length ws"
  shows "sum_list (take gi ws) + ws ! gi \<le> sum_list ws"
proof -
  have "sum_list ws = sum_list (take (Suc gi) ws) + sum_list (drop (Suc gi) ws)"
    by (metis append_take_drop_id sum_list_append)
  moreover have "0 \<le> sum_list (drop (Suc gi) ws)"
    using assms(1) by (intro sum_list_nonneg) (auto dest: in_set_dropD)
  moreover have "sum_list (take (Suc gi) ws) = sum_list (take gi ws) + ws ! gi"
    using assms(2) by (simp add: take_Suc_conv_app_nth)
  ultimately show ?thesis by linarith
qed

lemma spec_linePositions_nth:
  "gi < length gs \<Longrightarrow>
   spec_linePositions al W isLast y gs ! gi
     = \<lparr> pos_x = spec_startX al W (sum_list (map g_width gs))
                   + sum_list (take gi (map g_width gs))
                   + real gi * spec_gapShare al W (sum_list (map g_width gs)) (length gs) isLast,
         pos_y = y \<rparr>"
  by (simp add: spec_linePositions_def Let_def)

lemma length_spec_linePositions: "length (spec_linePositions al W isLast y gs) = length gs"
  by (simp add: spec_linePositions_def Let_def)

lemma spec_line_single:
  assumes "gs = [g]"
  shows "pos_x (spec_linePositions al W isLast y gs ! 0) + g_width g \<le> W
       \<or> (W < g_width g \<and> pos_x (spec_linePositions al W isLast y gs ! 0) = 0)"
  unfolding assms
  by (cases al) (auto simp: spec_linePositions_def spec_gapShare_def Let_def max_def field_simps)

lemma spec_line_fits_many:
  assumes nonneg: "\<forall>g \<in> set gs. 0 \<le> g_width g"
      and many: "2 \<le> length gs"
      and fit: "sum_list (map g_width gs) \<le> W"
      and gi: "gi < length gs"
  shows "pos_x (spec_linePositions al W isLast y gs ! gi) + g_width (gs ! gi) \<le> W"
proof -
  let ?ws = "map g_width gs"
  let ?T = "sum_list ?ws"
  have pre: "sum_list (take gi ?ws) + g_width (gs ! gi) \<le> ?T"
    using sum_take_Suc_le[of ?ws gi] nonneg gi by simp
  have x: "pos_x (spec_linePositions al W isLast y gs ! gi)
             = spec_startX al W ?T + sum_list (take gi ?ws)
               + real gi * spec_gapShare al W ?T (length gs) isLast"
    by (simp add: spec_linePositions_nth[OF gi])
  have "spec_startX al W ?T + sum_list (take gi ?ws)
          + real gi * spec_gapShare al W ?T (length gs) isLast + g_width (gs ! gi) \<le> W"
  proof (cases al)
    case Left
    then show ?thesis using pre fit by (simp add: spec_gapShare_def)
  next
    case Center
    then show ?thesis using pre fit by (simp add: spec_gapShare_def max_def field_simps)
  next
    case Right
    then show ?thesis using pre fit by (simp add: spec_gapShare_def max_def)
  next
    case Justify
    show ?thesis
    proof (cases isLast)
      case True
      then show ?thesis using pre fit Justify by (simp add: spec_gapShare_def)
    next
      case False
      from many obtain m where n: "length gs = Suc m" and m: "0 < m" by (cases "length gs") auto
      have gap: "spec_gapShare al W ?T (length gs) isLast = (W - ?T) / real m"
        using False Justify many fit n by (simp add: spec_gapShare_def max_def)
      have "real gi \<le> real m" using gi n by simp
      moreover have "0 \<le> (W - ?T) / real m" using fit m by simp
      ultimately have "real gi * ((W - ?T) / real m) \<le> real m * ((W - ?T) / real m)"
        by (rule mult_right_mono)
      also have "\<dots> = W - ?T" using m by simp
      finally have "real gi * ((W - ?T) / real m) \<le> W - ?T" .
      moreover have "spec_startX al W ?T = 0" using Justify by simp
      ultimately show ?thesis unfolding gap using pre by simp
    qed
  qed
  then show ?thesis by (simp add: x)
qed

lemma spec_line_fits:
  assumes nonneg: "\<forall>g \<in> set gs. 0 \<le> g_width g"
      and fit: "2 \<le> length gs \<longrightarrow> sum_list (map g_width gs) \<le> W"
      and gi: "gi < length gs"
  shows "pos_x (spec_linePositions al W isLast y gs ! gi) + g_width (gs ! gi) \<le> W
       \<or> (W < g_width (gs ! gi) \<and> pos_x (spec_linePositions al W isLast y gs ! gi) = 0
           \<and> length gs = 1)"
proof (cases "2 \<le> length gs")
  case True
  with spec_line_fits_many[OF nonneg True _ gi] fit show ?thesis by blast
next
  case False
  with gi obtain g where gs: "gs = [g]" and "gi = 0"
    by (cases gs) (auto simp: Suc_le_eq)
  then show ?thesis using spec_line_single[OF gs, of al W isLast y] by auto
qed

subsection \<open>Layout: the result of \<^verbatim>\<open>layoutEventsAligned\<close>\<close>

lemma layoutEventsAligned_rows:
  "layoutEventsAligned c evs al
     = Some \<lparr> positions =
                concat (map (\<lambda>li. spec_linePositions al (rectWidth c)
                                     (li = length (buildLines c evs) - 1)
                                     (real li * lineHeightOf c)
                                     (glyphs (buildLines c evs ! li)))
                            [0 ..< length (buildLines c evs)]),
              lineHeight = lineHeightOf c \<rparr>"
  using placeLines_closed[OF buildLines_totals, where al=al and W="rectWidth c" and lh="lineHeightOf c" and y=0 and c1=c and evs1=evs]
  by (simp add: layoutEventsAligned_def)

lemma map_over_indices: "map (\<lambda>i. f (xs ! i)) [0 ..< length xs] = map f xs"
  by (rule nth_equalityI) simp_all

lemma length_layout_positions:
  "layoutEventsAligned c evs al = Some lay \<Longrightarrow> length (positions lay) = length (glyphsOf c evs)"
proof -
  assume "layoutEventsAligned c evs al = Some lay"
  then have "length (positions lay)
               = sum_list (map (\<lambda>li. length (glyphs (buildLines c evs ! li))) [0 ..< length (buildLines c evs)])"
    by (auto simp: layoutEventsAligned_rows length_concat comp_def length_spec_linePositions)
  also have "\<dots> = sum_list (map (\<lambda>l. length (glyphs l)) (buildLines c evs))"
    using map_over_indices[of "\<lambda>l. length (glyphs l)" "buildLines c evs"] by simp
  also have "\<dots> = length (concat (map glyphs (buildLines c evs)))"
    by (simp add: length_concat comp_def)
  finally show ?thesis by (simp add: buildLines_glyphs)
qed

subsection \<open>Alignment\<close>





subsection \<open>Wrapping in exact arithmetic\<close>

lemma glyph_widths_nonneg:
  assumes "\<forall>ch. ch \<noteq> newline \<longrightarrow> 0 \<le> measureChar c ch" and "l \<in> set (buildLines c evs)" and "g \<in> set (glyphs l)"
  shows "0 \<le> g_width g"
proof -
  from assms(2,3) have "g \<in> set (concat (map glyphs (buildLines c evs)))" by auto
  then have "g \<in> set (glyphsOf c evs)" by (simp add: buildLines_glyphs)
  then show ?thesis using assms(1) by (auto simp: glyphsOf_def)
qed

text \<open>
  With exact sums in place of doubles and measured glyph widths that are not negative, under
  every alignment: the layout splits into one row of positions per line, the glyphs of the lines
  being those of the log in typing order; every glyph ends within the width of the container,
  unless it is wider than the container, in which case it is the only glyph of its line and sits
  at \<open>x = 0\<close>. The layout as the script computes it, in doubles, is treated in the section on
  the layout in doubles: there the bound survives under left alignment only.
\<close>

lemma exact_wrap_by_measured_width:
  assumes "\<forall>ch. ch \<noteq> newline \<longrightarrow> 0 \<le> measureChar c ch"
  shows "(\<exists>rows. layoutEventsAligned c evs al
                   = Some \<lparr> positions = concat rows, lineHeight = lineHeightOf c \<rparr>
              \<and> length rows = length (buildLines c evs)
              \<and> concat (map glyphs (buildLines c evs)) = glyphsOf c evs
              \<and> (\<forall>li < length rows.
                    length (rows ! li) = length (glyphs (buildLines c evs ! li))
                  \<and> (\<forall>gi < length (rows ! li).
                        pos_y (rows ! li ! gi) = real li * lineHeightOf c
                      \<and> (pos_x (rows ! li ! gi) + g_width (glyphs (buildLines c evs ! li) ! gi)
                             \<le> rectWidth c
                         \<or> (rectWidth c < g_width (glyphs (buildLines c evs ! li) ! gi)
                             \<and> pos_x (rows ! li ! gi) = 0
                             \<and> length (rows ! li) = 1)))))
       \<and> (\<forall>ev. ev_char ev \<noteq> newline \<longrightarrow>
             buildLines c (evs @ [ev])
               = (let ls = buildLines c evs;
                      g = \<lparr> g_char = ev_char ev, g_width = measureChar c (ev_char ev) \<rparr>
                  in if glyphs (last ls) \<noteq> [] \<and> rectWidth c < total (last ls) + g_width g
                     then ls @ [\<lparr> glyphs = [g], total = g_width g \<rparr>]
                     else butlast ls @ [\<lparr> glyphs = glyphs (last ls) @ [g],
                                          total = total (last ls) + g_width g \<rparr>]))"
proof (intro conjI)
  let ?ls = "buildLines c evs"
  let ?row = "\<lambda>li. spec_linePositions al (rectWidth c) (li = length ?ls - 1)
                        (real li * lineHeightOf c) (glyphs (?ls ! li))"
  let ?rows = "map ?row [0 ..< length ?ls]"
  have fits: "pos_y (?rows ! li ! gi) = real li * lineHeightOf c
            \<and> (pos_x (?rows ! li ! gi) + g_width (glyphs (?ls ! li) ! gi) \<le> rectWidth c
               \<or> (rectWidth c < g_width (glyphs (?ls ! li) ! gi)
                   \<and> pos_x (?rows ! li ! gi) = 0 \<and> length (?rows ! li) = 1))"
    if li: "li < length ?rows" and gi: "gi < length (?rows ! li)" for li gi
  proof -
    from li have li': "li < length ?ls" by simp
    then have mem: "?ls ! li \<in> set ?ls" by simp
    from gi li' have gi': "gi < length (glyphs (?ls ! li))"
      by (simp add: length_spec_linePositions)
    have nonneg: "\<forall>g \<in> set (glyphs (?ls ! li)). 0 \<le> g_width g"
      using glyph_widths_nonneg[OF assms mem] by blast
    have tot: "total (?ls ! li) = sum_list (map g_width (glyphs (?ls ! li)))"
      using buildLines_totals mem by blast
    have fit: "2 \<le> length (glyphs (?ls ! li))
                 \<longrightarrow> sum_list (map g_width (glyphs (?ls ! li))) \<le> rectWidth c"
      using buildLines_fit mem tot by metis
    have row: "?rows ! li = ?row li" using li' by simp
    show ?thesis
      unfolding row
      using spec_line_fits[OF nonneg fit gi', of al "li = length ?ls - 1" "real li * lineHeightOf c"]
      by (simp add: spec_linePositions_nth[OF gi'] length_spec_linePositions)
  qed
  have lens: "length (?rows ! li) = length (glyphs (?ls ! li))" if "li < length ?rows" for li
    using that by (simp add: length_spec_linePositions)
  show "\<exists>rows. layoutEventsAligned c evs al
                   = Some \<lparr> positions = concat rows, lineHeight = lineHeightOf c \<rparr>
              \<and> length rows = length (buildLines c evs)
              \<and> concat (map glyphs (buildLines c evs)) = glyphsOf c evs
              \<and> (\<forall>li < length rows.
                    length (rows ! li) = length (glyphs (buildLines c evs ! li))
                  \<and> (\<forall>gi < length (rows ! li).
                        pos_y (rows ! li ! gi) = real li * lineHeightOf c
                      \<and> (pos_x (rows ! li ! gi) + g_width (glyphs (buildLines c evs ! li) ! gi)
                             \<le> rectWidth c
                         \<or> (rectWidth c < g_width (glyphs (buildLines c evs ! li) ! gi)
                             \<and> pos_x (rows ! li ! gi) = 0
                             \<and> length (rows ! li) = 1))))"
  proof (intro exI[of _ ?rows] conjI allI impI)
    show "layoutEventsAligned c evs al = Some \<lparr> positions = concat ?rows, lineHeight = lineHeightOf c \<rparr>"
      by (rule layoutEventsAligned_rows)
    show "length ?rows = length ?ls" by simp
    show "concat (map glyphs ?ls) = glyphsOf c evs" by (rule buildLines_glyphs)
  next
    fix li assume "li < length ?rows"
    then show "length (?rows ! li) = length (glyphs (?ls ! li))" by (rule lens)
  next
    fix li gi assume "li < length ?rows" "gi < length (?rows ! li)"
    from fits[OF this] show "pos_y (?rows ! li ! gi) = real li * lineHeightOf c" by blast
  next
    fix li gi assume "li < length ?rows" "gi < length (?rows ! li)"
    from fits[OF this]
    show "pos_x (?rows ! li ! gi) + g_width (glyphs (?ls ! li) ! gi) \<le> rectWidth c
               \<or> (rectWidth c < g_width (glyphs (?ls ! li) ! gi)
                   \<and> pos_x (?rows ! li ! gi) = 0 \<and> length (?rows ! li) = 1)" by blast
  qed
next
  show "\<forall>ev. ev_char ev \<noteq> newline \<longrightarrow>
             buildLines c (evs @ [ev])
               = (let ls = buildLines c evs;
                      g = \<lparr> g_char = ev_char ev, g_width = measureChar c (ev_char ev) \<rparr>
                  in if glyphs (last ls) \<noteq> [] \<and> rectWidth c < total (last ls) + g_width g
                     then ls @ [\<lparr> glyphs = [g], total = g_width g \<rparr>]
                     else butlast ls @ [\<lparr> glyphs = glyphs (last ls) @ [g],
                                          total = total (last ls) + g_width g \<rparr>])"
    using buildLines_snoc_glyph by blast
qed

lemma buildLines_abc:
  "buildLines box100 (typed ''abc'')
     = [\<lparr> glyphs = [\<lparr> g_char = CHR ''a'', g_width = 30 \<rparr>, \<lparr> g_char = CHR ''b'', g_width = 30 \<rparr>,
                     \<lparr> g_char = CHR ''c'', g_width = 30 \<rparr>], total = 90 \<rparr>]"
  by (simp add: buildLines_def typed_def box100_def addEvent_def pushLine_def initialBuild_def
                measureChar_def letterSpacingOf_def newline_def space_def Let_def)

lemma measureChar_box100: "measureChar box100 ch = (if ch = newline then 0 else 30)"
  by (simp add: measureChar_def box100_def letterSpacingOf_def newline_def space_def)


subsection \<open>A container of zero width\<close>

lemma atMostOne_addEvent:
  assumes zero: "rectWidth c = 0" and pos: "\<forall>ch. ch \<noteq> newline \<longrightarrow> 0 < measureChar c ch" and inv: "atMostOne s"
  shows "atMostOne (addEvent c ev s)"
proof (cases rule: addEvent_cases[where ev=ev and s=s and c=c])
  case newline
  with inv show ?thesis by (auto simp: atMostOne_def addEvent_newline)
next
  case wrap
  from pos wrap(1) have "0 < measureChar c (ev_char ev)" by blast
  with wrap inv show ?thesis by (auto simp: atMostOne_def addEvent_wrap)
next
  case stay
  have w: "0 < measureChar c (ev_char ev)" using pos stay(1) by blast
  have "currentLine s = []"
  proof (rule ccontr)
    assume ne: "currentLine s \<noteq> []"
    with inv have "0 < currentWidth s" by (simp add: atMostOne_def)
    with w have "rectWidth c < currentWidth s + measureChar c (ev_char ev)"
      using zero by linarith
    with ne stay(2) show False by blast
  qed
  with inv w show ?thesis by (simp add: atMostOne_def addEvent_stay[OF stay])
qed

lemma atMostOne_fold:
  "rectWidth c = 0 \<Longrightarrow> \<forall>ch. ch \<noteq> newline \<longrightarrow> 0 < measureChar c ch \<Longrightarrow> atMostOne s \<Longrightarrow>
   atMostOne (fold (addEvent c) evs s)"
  by (induction evs arbitrary: s) (simp_all add: atMostOne_addEvent)

lemma zero_width_lines:
  assumes "rectWidth c = 0" and "\<forall>ch. ch \<noteq> newline \<longrightarrow> 0 < measureChar c ch"
  shows "\<forall>l \<in> set (buildLines c evs). length (glyphs l) \<le> 1"
proof -
  have "atMostOne (fold (addEvent c) evs initialBuild)"
    by (rule atMostOne_fold[OF assms]) (simp add: atMostOne_def initialBuild_def)
  then show ?thesis by (auto simp: buildLines_eq atMostOne_def)
qed

lemma spec_line_alone_at_zero:
  assumes "length gs \<le> 1" and "\<forall>g \<in> set gs. 0 \<le> g_width g"
      and "p \<in> set (spec_linePositions al 0 isLast y gs)"
  shows "pos_x p = 0"
proof (cases gs)
  case Nil
  with assms(3) show ?thesis by (simp add: spec_linePositions_def)
next
  case (Cons g gs')
  with assms(1) have gs: "gs = [g]" by simp
  with assms(2) have "0 \<le> g_width g" by simp
  with assms(3) show ?thesis
    unfolding gs by (cases al) (auto simp: spec_linePositions_def spec_gapShare_def Let_def max_def)
qed

text \<open>
  Claim C7, as amended. A container of zero measured width is not treated as unbounded: when
  every glyph has a positive width, each glyph is broken onto a line of its own and placed at
  \<open>x = 0\<close>. The layout is nevertheless defined for every log and every alignment (no division
  by zero is evaluated, and every loop runs over the finite log), and it places every glyph.
\<close>

theorem zero_width_wraps_every_glyph:
  assumes "rectWidth c = 0" and "\<forall>ch. ch \<noteq> newline \<longrightarrow> 0 < measureChar c ch"
  shows "\<exists>lay. layoutEventsAligned c evs al = Some lay
             \<and> length (positions lay) = length (glyphsOf c evs)
             \<and> (\<forall>p \<in> set (positions lay). pos_x p = 0)
             \<and> (\<forall>l \<in> set (buildLines c evs). length (glyphs l) \<le> 1)"
proof -
  let ?ls = "buildLines c evs"
  let ?row = "\<lambda>li. spec_linePositions al (rectWidth c) (li = length ?ls - 1)
                        (real li * lineHeightOf c) (glyphs (?ls ! li))"
  let ?lay = "\<lparr> positions = concat (map ?row [0 ..< length ?ls]), lineHeight = lineHeightOf c \<rparr>"
  have lay: "layoutEventsAligned c evs al = Some ?lay"
    by (rule layoutEventsAligned_rows)
  have one: "\<forall>l \<in> set ?ls. length (glyphs l) \<le> 1"
    by (rule zero_width_lines[OF assms])
  have nonneg: "\<forall>ch. ch \<noteq> newline \<longrightarrow> 0 \<le> measureChar c ch"
    using assms(2) by (auto intro: less_imp_le)
  have x0: "pos_x p = 0" if "p \<in> set (positions ?lay)" for p
  proof -
    from that obtain li where li: "li < length ?ls" and p: "p \<in> set (?row li)" by auto
    from li have mem: "?ls ! li \<in> set ?ls" by simp
    have "\<forall>g \<in> set (glyphs (?ls ! li)). 0 \<le> g_width g"
      using glyph_widths_nonneg[OF nonneg mem] by blast
    moreover have "length (glyphs (?ls ! li)) \<le> 1" using one mem by blast
    ultimately show ?thesis
      using spec_line_alone_at_zero p assms(1) by metis
  qed
  from lay length_layout_positions[OF lay] x0 one show ?thesis by blast
qed

lemma measureChar_box0: "measureChar box0 ch = (if ch = newline then 0 else 30)"
  by (simp add: measureChar_def box0_def box100_def letterSpacingOf_def newline_def space_def)


text \<open>The caret of \<open>nextCaretPosition\<close> wraps in the same way: with zero width it breaks before \<open>a\<close> and before \<open>b\<close>.\<close>

lemma zero_width_caret_wraps:
  "caretLetters box0
     \<lparr> measurer = False, caret_x = 0, caret_y = 0, caret_lineHeight = 0, spaceWidth = 0, charWidth = 0 \<rparr>
     (typed ''ab'')
   = [\<lparr> lt_char = CHR ''a'', lt_left = 0, lt_top = 36 \<rparr>,
      \<lparr> lt_char = CHR ''b'', lt_left = 0, lt_top = 36 + 33.6 \<rparr>]"
  by (simp add: typed_def nextCaretPosition_def box0_def box100_def Let_def fontSizeOf_def
                letterSpacingOf_def space_def newline_def)

text \<open>
  Claim C7 as stated fails: in a container of zero width the two letters of \<open>ab\<close> do not stay
  on one line; \<open>b\<close> is wrapped to the second line.
\<close>

theorem zero_width_is_not_unbounded:
  "layoutEventsAligned box0 (typed ''ab'') Left
     = Some \<lparr> positions = [\<lparr> pos_x = 0, pos_y = 0 \<rparr>, \<lparr> pos_x = 0, pos_y = 33.6 \<rparr>],
              lineHeight = 33.6 \<rparr>
   \<and> layoutEventsAligned box100 (typed ''ab'') Left
     = Some \<lparr> positions = [\<lparr> pos_x = 0, pos_y = 0 \<rparr>, \<lparr> pos_x = 30, pos_y = 0 \<rparr>],
              lineHeight = 33.6 \<rparr>"
  by (simp add: layoutEventsAligned_def buildLines_def typed_def box0_def box100_def addEvent_def
                pushLine_def initialBuild_def measureChar_def letterSpacingOf_def newline_def
                space_def Let_def lineStart_def lineHeightOf_def fontSizeOf_def)

theorem zero_width_wraps_every_glyph_witness:
  "rectWidth box0 = 0
   \<and> layoutEventsAligned box0 (typed ''ab'') Justify \<noteq> None
   \<and> length (positions (the (layoutEventsAligned box0 (typed ''ab'') Justify))) = 2
   \<and> pos_x (positions (the (layoutEventsAligned box0 (typed ''ab'') Justify)) ! 1) = 0"
proof -
  have z: "rectWidth box0 = 0" by (simp add: box0_def)
  have h: "\<forall>ch. ch \<noteq> newline \<longrightarrow> 0 < measureChar box0 ch"
    by (simp add: measureChar_box0)
  have n: "length (glyphsOf box0 (typed ''ab'')) = 2"
    by (simp add: glyphsOf_def typed_def newline_def)
  from zero_width_wraps_every_glyph[OF z h, of "typed ''ab''" Justify]
  obtain lay where lay: "layoutEventsAligned box0 (typed ''ab'') Justify = Some lay"
    and len: "length (positions lay) = length (glyphsOf box0 (typed ''ab''))"
    and x0: "\<forall>p \<in> set (positions lay). pos_x p = 0"
    by blast
  from len n have l2: "length (positions lay) = 2" by simp
  then have "positions lay ! 1 \<in> set (positions lay)" by simp
  with x0 have "pos_x (positions lay ! 1) = 0" by blast
  with z lay l2 show ?thesis by simp
qed

subsection \<open>Deleting the last event\<close>

lemma reflowLetter_keeps:
  "events (reflowLetter ps i s) = events s"
  "storage (reflowLetter ps i s) = storage s"
  "length (typedLetters (reflowLetter ps i s)) = length (typedLetters s)"
  by (simp_all add: reflowLetter_def)

lemma fold_reflowLetter_keeps:
  "events (fold (reflowLetter ps) is s) = events s
   \<and> storage (fold (reflowLetter ps) is s) = storage s
   \<and> length (typedLetters (fold (reflowLetter ps) is s)) = length (typedLetters s)"
  by (induction "is" arbitrary: s) (simp_all add: reflowLetter_keeps)

lemma updateContainerHeight_keeps:
  "events (updateContainerHeight ps s) = events s"
  "storage (updateContainerHeight ps s) = storage s"
  "typedLetters (updateContainerHeight ps s) = typedLetters s"
  by (simp_all add: updateContainerHeight_def Let_def)

lemma reflowExistingLetters_keeps:
  "events (reflowExistingLetters s) = events s"
  "storage (reflowExistingLetters s) = storage s"
  "length (typedLetters (reflowExistingLetters s)) = length (typedLetters s)"
  by (simp_all add: reflowExistingLetters_def Let_def updateCursorPosition_def clearLetterBodies_def
                    fold_reflowLetter_keeps updateContainerHeight_keeps split: option.splits)

text \<open>
  Claim C9. On an empty log \<open>deleteLast\<close> returns the state as it is. On a non-empty log it
  removes the last event and nothing else from the log, the stored document holds the shortened
  log, and one letter leaves the text area unless the removed event is a newline.
\<close>

theorem deleteLast_removes_last_event:
  "(events s = [] \<longrightarrow> deleteLast s = s)
   \<and> (events s \<noteq> [] \<longrightarrow>
         events (deleteLast s) = butlast (events s)
       \<and> map_option p_events (storage (deleteLast s)) = Some (butlast (events s))
       \<and> length (typedLetters (deleteLast s))
           = (if ev_char (last (events s)) \<noteq> newline
              then length (typedLetters s) - 1 else length (typedLetters s)))"
proof (intro conjI impI)
  assume "events s = []"
  then show "deleteLast s = s" by (simp add: deleteLast_def)
next
  assume ne: "events s \<noteq> []"
  define s1 where "s1 = (if ev_char (last (events s)) \<noteq> newline \<and> typedLetters s \<noteq> []
                  then (removeLetterBodyByElement (length (typedLetters s) - 1) s)
                         \<lparr> typedLetters := butlast (typedLetters s) \<rparr>
                  else s)"
  define s3 where "s3 = persistToStorage (s1\<lparr> events := butlast (events s1) \<rparr>)"
  have del: "deleteLast s = updateCursorPosition (reflowExistingLetters s3)"
    using ne by (simp add: deleteLast_def Let_def s1_def s3_def)
  have ev1: "events s1 = events s"
    by (simp add: s1_def removeLetterBodyByElement_def)
  have len1: "length (typedLetters s1)
           = (if ev_char (last (events s)) \<noteq> newline
              then length (typedLetters s) - 1 else length (typedLetters s))"
    by (simp add: s1_def removeLetterBodyByElement_def)
  have ev3: "events s3 = butlast (events s)"
    by (simp add: s3_def persistToStorage_def ev1)
  have st3: "map_option p_events (storage s3) = Some (butlast (events s))"
    by (simp add: s3_def persistToStorage_def ev1)
  have len3: "length (typedLetters s3) = length (typedLetters s1)"
    by (simp add: s3_def persistToStorage_def)
  show "events (deleteLast s) = butlast (events s)"
    by (simp add: del updateCursorPosition_def reflowExistingLetters_keeps ev3)
  show "map_option p_events (storage (deleteLast s)) = Some (butlast (events s))"
    by (simp add: del updateCursorPosition_def reflowExistingLetters_keeps st3)
  show "length (typedLetters (deleteLast s))
           = (if ev_char (last (events s)) \<noteq> newline
              then length (typedLetters s) - 1 else length (typedLetters s))"
  proof -
    have "length (typedLetters (deleteLast s)) = length (typedLetters s1)"
      by (simp add: del updateCursorPosition_def reflowExistingLetters_keeps len3)
    then show ?thesis by (simp only: len1)
  qed
qed

theorem deleteLast_removes_last_event_witness:
  "events (freshState sheet600) = [] \<and> deleteLast (freshState sheet600) = freshState sheet600
   \<and> events typedAB \<noteq> [] \<and> events (deleteLast typedAB) = [evA]
   \<and> length (typedLetters (deleteLast typedAB)) = 1"
proof -
  have e0: "events (freshState sheet600) = []" by (simp add: freshState_def)
  have e1: "events typedAB = [evA, evB]" by (simp add: typedAB_def)
  have l1: "length (typedLetters typedAB) = 2" by (simp add: typedAB_def)
  have nb: "ev_char evB \<noteq> newline" by (simp add: evB_def newline_def)
  from deleteLast_removes_last_event[of "freshState sheet600"] e0
  have a: "deleteLast (freshState sheet600) = freshState sheet600" by blast
  from deleteLast_removes_last_event[of typedAB] e1
  have b: "events (deleteLast typedAB) = butlast (events typedAB)"
    and c: "length (typedLetters (deleteLast typedAB))
           = (if ev_char (last (events typedAB)) \<noteq> newline
              then length (typedLetters typedAB) - 1 else length (typedLetters typedAB))"
    by simp_all
  from a b c e0 e1 l1 nb show ?thesis by simp
qed

subsection \<open>Reflow and the alignment round trip\<close>

lemma reflowLetter_physics: "physicsEnabled (reflowLetter ps n s) = physicsEnabled s"
  by (simp add: reflowLetter_def)

lemma reflowLetter_nth:
  "i < length (typedLetters s) \<Longrightarrow>
   typedLetters (reflowLetter ps n s) ! i
     = (if i = n
        then (typedLetters s ! i)\<lparr> lt_left := pos_x (ps ! i),
               lt_top := (if physicsEnabled s then - 64 else pos_y (ps ! i)) \<rparr>
        else typedLetters s ! i)"
  by (simp add: reflowLetter_def)

lemma fold_reflowLetter_letters:
  "typedLetters (fold (reflowLetter ps) [0 ..< n] s)
     = map (\<lambda>i. if i < n
                 then (typedLetters s ! i)\<lparr> lt_left := pos_x (ps ! i),
                        lt_top := (if physicsEnabled s then - 64 else pos_y (ps ! i)) \<rparr>
                 else typedLetters s ! i)
           [0 ..< length (typedLetters s)]
   \<and> physicsEnabled (fold (reflowLetter ps) [0 ..< n] s) = physicsEnabled s"
proof (induction n)
  case 0
  show ?case by (simp add: map_nth)
next
  case (Suc n)
  let ?s = "fold (reflowLetter ps) [0 ..< n] s"
  have step: "fold (reflowLetter ps) [0 ..< Suc n] s = reflowLetter ps n ?s" by simp
  have len: "length (typedLetters ?s) = length (typedLetters s)"
    by (simp add: fold_reflowLetter_keeps)
  have phys: "physicsEnabled (reflowLetter ps n ?s) = physicsEnabled s"
    using Suc.IH by (simp add: reflowLetter_physics)
  have "typedLetters (reflowLetter ps n ?s)
     = map (\<lambda>i. if i < Suc n
                 then (typedLetters s ! i)\<lparr> lt_left := pos_x (ps ! i),
                        lt_top := (if physicsEnabled s then - 64 else pos_y (ps ! i)) \<rparr>
                 else typedLetters s ! i)
           [0 ..< length (typedLetters s)]"
  proof (rule nth_equalityI)
    show "length (typedLetters (reflowLetter ps n ?s)) = length (map (\<lambda>i. if i < Suc n
                 then (typedLetters s ! i)\<lparr> lt_left := pos_x (ps ! i),
                        lt_top := (if physicsEnabled s then - 64 else pos_y (ps ! i)) \<rparr>
                 else typedLetters s ! i)
           [0 ..< length (typedLetters s)])"
      by (simp add: reflowLetter_keeps len)
  next
    fix i assume "i < length (typedLetters (reflowLetter ps n ?s))"
    then have i: "i < length (typedLetters s)" by (simp add: reflowLetter_keeps len)
    have old: "typedLetters ?s ! i
                 = (if i < n
                    then (typedLetters s ! i)\<lparr> lt_left := pos_x (ps ! i),
                           lt_top := (if physicsEnabled s then - 64 else pos_y (ps ! i)) \<rparr>
                    else typedLetters s ! i)"
      using Suc.IH i by simp
    have ph: "physicsEnabled ?s = physicsEnabled s" using Suc.IH by simp
    show "typedLetters (reflowLetter ps n ?s) ! i
            = map (\<lambda>i. if i < Suc n
                 then (typedLetters s ! i)\<lparr> lt_left := pos_x (ps ! i),
                        lt_top := (if physicsEnabled s then - 64 else pos_y (ps ! i)) \<rparr>
                 else typedLetters s ! i)
           [0 ..< length (typedLetters s)] ! i"
    proof (cases "i = n")
      case True
      then show ?thesis using i len old ph by (simp add: reflowLetter_nth)
    next
      case False
      then show ?thesis using i len old ph by (auto simp: reflowLetter_nth less_Suc_eq)
    qed
  qed
  with phys show ?case unfolding step by simp
qed


lemma layout_defined: "\<exists>lay. layoutEventsAligned c evs al = Some lay"
  by (simp add: layoutEventsAligned_rows)

lemma reflow_frame:
  "textArea (reflowExistingLetters s) = textArea s"
  "align (reflowExistingLetters s) = align s"
  "physicsEnabled (reflowExistingLetters s) = physicsEnabled s"
  "physicsWorld (reflowExistingLetters s) = physicsWorld s"
proof -
  have f: "textArea (fold (reflowLetter ps) is t) = textArea t
         \<and> align (fold (reflowLetter ps) is t) = align t
         \<and> physicsEnabled (fold (reflowLetter ps) is t) = physicsEnabled t
         \<and> physicsWorld (fold (reflowLetter ps) is t) = physicsWorld t" for ps "is" t
    by (induction "is" arbitrary: t) (simp_all add: reflowLetter_def)
  show "textArea (reflowExistingLetters s) = textArea s"
    "align (reflowExistingLetters s) = align s"
    "physicsEnabled (reflowExistingLetters s) = physicsEnabled s"
    "physicsWorld (reflowExistingLetters s) = physicsWorld s"
    by (simp_all add: reflowExistingLetters_def Let_def updateCursorPosition_def clearLetterBodies_def
                      f updateContainerHeight_def split: option.splits)
qed

lemma reflow_letters:
  assumes lay: "layoutEventsAligned (textArea s) (events s) (align s) = Some lay"
  shows "typedLetters (reflowExistingLetters s)
     = (if (physicsEnabled s \<and> \<not> physicsWorld s) \<or> typedLetters s = [] then typedLetters s
        else map (\<lambda>i. if i < length (positions lay)
                       then (typedLetters s ! i)\<lparr> lt_left := pos_x (positions lay ! i),
                              lt_top := (if physicsEnabled s then - 64 else pos_y (positions lay ! i)) \<rparr>
                       else typedLetters s ! i)
                 [0 ..< length (typedLetters s)])"
proof (cases "(physicsEnabled s \<and> \<not> physicsWorld s) \<or> typedLetters s = []")
  case True
  then show ?thesis by (auto simp: reflowExistingLetters_def)
next
  case False
  define s1 where "s1 = (if physicsEnabled s then clearLetterBodies s else s)"
  define s2 where "s2 = updateContainerHeight (positions lay) s1"
  have s1: "textArea s1 = textArea s" "events s1 = events s" "align s1 = align s"
    "typedLetters s1 = typedLetters s" "physicsEnabled s1 = physicsEnabled s"
    by (simp_all add: s1_def clearLetterBodies_def)
  have s2: "events s2 = events s" "typedLetters s2 = typedLetters s" "physicsEnabled s2 = physicsEnabled s"
    by (simp_all add: s2_def updateContainerHeight_def Let_def s1)
  have n: "length (filter (\<lambda>ev. ev_char ev \<noteq> newline) (events s)) = length (positions lay)"
    using length_layout_positions[OF lay] by (simp add: glyphsOf_def)
  have "reflowExistingLetters s
          = updateCursorPosition (fold (reflowLetter (positions lay)) [0 ..< length (positions lay)] s2)"
    using False lay n by (auto simp: reflowExistingLetters_def Let_def s1_def[symmetric] s1 s2_def[symmetric] s2)
  then have "typedLetters (reflowExistingLetters s)
          = typedLetters (fold (reflowLetter (positions lay)) [0 ..< length (positions lay)] s2)"
    by (simp add: updateCursorPosition_def)
  also have "\<dots> = map (\<lambda>i. if i < length (positions lay)
                       then (typedLetters s ! i)\<lparr> lt_left := pos_x (positions lay ! i),
                              lt_top := (if physicsEnabled s then - 64 else pos_y (positions lay ! i)) \<rparr>
                       else typedLetters s ! i)
                 [0 ..< length (typedLetters s)]"
    using fold_reflowLetter_letters[of "positions lay" "length (positions lay)" s2]
    by (simp add: s2)
  finally show ?thesis
    using False by (simp only: if_False)
qed

text \<open>
  Switching the alignment and switching back to \<open>left\<close> sends every letter where switching to
  \<open>left\<close> at once sends it.
\<close>

lemma align_round_trip:
  "typedLetters (setAlign Left (setAlign al s)) = typedLetters (setAlign Left s)"
proof -
  let ?a = "s\<lparr> align := al \<rparr>"
  let ?s' = "setAlign al s"
  let ?b = "?s'\<lparr> align := Left \<rparr>"
  let ?d = "s\<lparr> align := Left \<rparr>"
  obtain layA where layA: "layoutEventsAligned (textArea ?a) (events ?a) (align ?a) = Some layA"
    using layout_defined by blast
  obtain layL where layL: "layoutEventsAligned (textArea s) (events s) Left = Some layL"
    using layout_defined by blast
  have frame: "textArea ?s' = textArea s" "events ?s' = events s"
    "physicsEnabled ?s' = physicsEnabled s" "physicsWorld ?s' = physicsWorld s"
    "length (typedLetters ?s') = length (typedLetters s)"
    by (simp_all add: setAlign_def persistToStorage_def reflow_frame reflowExistingLetters_keeps)
  have lens: "length (positions layA) = length (positions layL)"
    using length_layout_positions[OF layA] length_layout_positions[OF layL] by simp
  have layB: "layoutEventsAligned (textArea ?b) (events ?b) (align ?b) = Some layL"
    using layL by (simp add: frame)
  have layD: "layoutEventsAligned (textArea ?d) (events ?d) (align ?d) = Some layL"
    using layL by simp
  have lhs: "typedLetters (setAlign Left ?s') = typedLetters (reflowExistingLetters ?b)"
    by (simp add: setAlign_def persistToStorage_def)
  have rhs: "typedLetters (setAlign Left s) = typedLetters (reflowExistingLetters ?d)"
    by (simp add: setAlign_def persistToStorage_def)
  have mid: "typedLetters ?s' = typedLetters (reflowExistingLetters ?a)"
    by (simp add: setAlign_def persistToStorage_def)
  show ?thesis
  proof (cases "(physicsEnabled s \<and> \<not> physicsWorld s) \<or> typedLetters s = []")
    case True
    then have "typedLetters ?s' = typedLetters s"
      unfolding mid reflow_letters[OF layA] by auto
    with True frame show ?thesis
      unfolding lhs rhs reflow_letters[OF layB] reflow_letters[OF layD] by auto
  next
    case False
    with frame have ne: "\<not> ((physicsEnabled ?s' \<and> \<not> physicsWorld ?s') \<or> typedLetters ?s' = [])"
      by auto
    have nth: "typedLetters ?s' ! i
                 = (if i < length (positions layA)
                       then (typedLetters s ! i)\<lparr> lt_left := pos_x (positions layA ! i),
                              lt_top := (if physicsEnabled s then - 64 else pos_y (positions layA ! i)) \<rparr>
                       else typedLetters s ! i)" if "i < length (typedLetters s)" for i
      unfolding mid reflow_letters[OF layA] using False that by auto
    show ?thesis
      unfolding lhs rhs reflow_letters[OF layB] reflow_letters[OF layD]
      using False ne frame by (auto simp: nth lens)
  qed
qed

subsection \<open>Restoring a stored document\<close>

lemma layout_reads_characters_only:
  assumes "map ev_char evs = map ev_char evs'"
  shows "layoutEventsAligned c evs al = layoutEventsAligned c evs' al"
proof -
  have step: "ev_char ev = ev_char ev' \<Longrightarrow> addEvent c ev s = addEvent c ev' s" for ev ev' s
    by (simp add: addEvent_def)
  have "fold (addEvent c) evs s = fold (addEvent c) evs' s" for s
    using assms
  proof (induction evs arbitrary: evs' s)
    case Nil
    then show ?case by simp
  next
    case (Cons ev evs)
    then obtain ev' rest where e: "evs' = ev' # rest" by (cases evs') auto
    with Cons.prems have "ev_char ev = ev_char ev'" "map ev_char evs = map ev_char rest" by simp_all
    with Cons.IH[of rest] step[of ev ev'] show ?case by (simp add: e)
  qed
  then show ?thesis by (simp add: layoutEventsAligned_def buildLines_def)
qed

lemma restoreOne_fields:
  assumes "\<not> physicsEnabled s"
  shows "typedLetters (restoreOne now ev s)
           = typedLetters s
             @ (if ev_char ev \<noteq> newline
                then [\<lparr> lt_char = ev_char ev,
                        lt_left = pos_x (fst (nextCaretPosition (textArea s) (ev_char ev) (caretState s))),
                        lt_top = pos_y (fst (nextCaretPosition (textArea s) (ev_char ev) (caretState s))) \<rparr>]
                else [])"
    and "caretState (restoreOne now ev s) = snd (nextCaretPosition (textArea s) (ev_char ev) (caretState s))"
    and "textArea (restoreOne now ev s) = textArea s"
    and "physicsEnabled (restoreOne now ev s) = physicsEnabled s"
    and "map ev_char (events (restoreOne now ev s)) = map ev_char (events s) @ [ev_char ev]"
  using assms
  by (simp_all add: restoreOne_def createLetterSpan_def recordEvent_def persistToStorage_def
                    Let_def split: prod.splits)

lemma fold_restoreOne:
  "\<not> physicsEnabled s \<Longrightarrow>
   typedLetters (fold (restoreOne now) evs s)
     = typedLetters s @ caretLetters (textArea s) (caretState s) evs
   \<and> map ev_char (events (fold (restoreOne now) evs s)) = map ev_char (events s) @ map ev_char evs"
proof (induction evs arbitrary: s)
  case Nil
  then show ?case by simp
next
  case (Cons ev evs)
  from Cons.prems have p: "\<not> physicsEnabled (restoreOne now ev s)"
    by (simp add: restoreOne_fields)
  show ?case
    using Cons.IH[OF p] Cons.prems
    by (simp add: restoreOne_fields split: prod.splits)
qed

lemma restoreEvents_fields:
  assumes "\<not> physicsEnabled s" and "\<not> measurer (caretState s)"
  shows "typedLetters (restoreEvents now stored s)
           = typedLetters s @ caretLetters (textArea s) (caretState s) stored"
    and "map ev_char (events (restoreEvents now stored s)) = map ev_char stored"
  using assms fold_restoreOne[of "s\<lparr> events := [] \<rparr>" now stored]
  by (simp_all add: restoreEvents_def)

lemma caret_sheet600_newline:
  "nextCaretPosition sheet600 newline
     \<lparr> measurer = False, caret_x = 0, caret_y = 0, caret_lineHeight = 0, spaceWidth = 0, charWidth = 0 \<rparr>
   = (\<lparr> pos_x = 0, pos_y = 36 \<rparr>,
      \<lparr> measurer = True, caret_x = 0, caret_y = 36, caret_lineHeight = 168 / 5,
        spaceWidth = 42 / 5, charWidth = 14 \<rparr>)"
  by (simp add: nextCaretPosition_def sheet600_def Let_def fontSizeOf_def letterSpacingOf_def space_def)

lemma caret_sheet600_a:
  "nextCaretPosition sheet600 CHR ''a''
      \<lparr> measurer = True, caret_x = 0, caret_y = 36, caret_lineHeight = 168 / 5,
        spaceWidth = 42 / 5, charWidth = 14 \<rparr>
   = (\<lparr> pos_x = 0, pos_y = 36 \<rparr>,
      \<lparr> measurer = True, caret_x = 362 / 25, caret_y = 36, caret_lineHeight = 168 / 5,
        spaceWidth = 42 / 5, charWidth = 14 \<rparr>)"
  by (simp add: nextCaretPosition_def sheet600_def Let_def fontSizeOf_def letterSpacingOf_def
                space_def newline_def)

lemma caret_sheet600_space:
  "nextCaretPosition sheet600 space
      \<lparr> measurer = True, caret_x = 362 / 25, caret_y = 36, caret_lineHeight = 168 / 5,
        spaceWidth = 42 / 5, charWidth = 14 \<rparr>
   = (\<lparr> pos_x = 362 / 25, pos_y = 36 \<rparr>,
      \<lparr> measurer = True, caret_x = 572 / 25, caret_y = 36, caret_lineHeight = 168 / 5,
        spaceWidth = 42 / 5, charWidth = 14 \<rparr>)"
  by (simp add: nextCaretPosition_def sheet600_def Let_def fontSizeOf_def letterSpacingOf_def
                space_def newline_def)

lemma caret_sheet600_b:
  "nextCaretPosition sheet600 CHR ''b''
      \<lparr> measurer = True, caret_x = 572 / 25, caret_y = 36, caret_lineHeight = 168 / 5,
        spaceWidth = 42 / 5, charWidth = 14 \<rparr>
   = (\<lparr> pos_x = 572 / 25, pos_y = 36 \<rparr>,
      \<lparr> measurer = True, caret_x = 934 / 25, caret_y = 36, caret_lineHeight = 168 / 5,
        spaceWidth = 42 / 5, charWidth = 14 \<rparr>)"
  by (simp add: nextCaretPosition_def sheet600_def Let_def fontSizeOf_def letterSpacingOf_def
                space_def newline_def)


lemma caretLetters_storedDoc:
  "caretLetters sheet600
     \<lparr> measurer = False, caret_x = 0, caret_y = 0, caret_lineHeight = 0, spaceWidth = 0, charWidth = 0 \<rparr>
     storedDoc
   = [\<lparr> lt_char = CHR ''a'', lt_left = 0, lt_top = 36 \<rparr>,
      \<lparr> lt_char = space, lt_left = 14.48, lt_top = 36 \<rparr>,
      \<lparr> lt_char = CHR ''b'', lt_left = 22.88, lt_top = 36 \<rparr>]"
  by (simp add: storedDoc_def caret_sheet600_newline caret_sheet600_a caret_sheet600_space
                caret_sheet600_b)
     (simp add: newline_def space_def)

lemma layout_storedDoc:
  "layoutEventsAligned sheet600 storedDoc Left
     = Some \<lparr> positions = [\<lparr> pos_x = 0, pos_y = 33.6 \<rparr>, \<lparr> pos_x = 14.48, pos_y = 33.6 \<rparr>,
                           \<lparr> pos_x = 20.48, pos_y = 33.6 \<rparr>],
              lineHeight = 33.6 \<rparr>"
  by (simp add: layoutEventsAligned_def buildLines_def storedDoc_def sheet600_def addEvent_def
                pushLine_def initialBuild_def measureChar_def letterSpacingOf_def newline_def
                space_def Let_def lineStart_def lineHeightOf_def fontSizeOf_def)

text \<open>
  Claim C5. Re-running \<open>layoutEventsAligned\<close> on the same log under the same mode gives the same
  positions (it is a function of the characters of the log, the mode and the metrics of the
  text area: lemma \<open>layout_reads_characters_only\<close>), and switching the alignment away from
  \<open>left\<close> and back sends the letters where \<open>left\<close> sends them (lemma \<open>align_round_trip\<close>).
  Restoring or importing a document, however, does not run this layout: the letters are placed
  by \<open>nextCaretPosition\<close>, whose first line is 36 pixels high and whose space is 0.6 of the
  width of \<open>M\<close>. For the stored document \<open>storedDoc\<close> the restored letters and the left-mode
  layout of the restored log differ:
\<close>

theorem restore_places_letters_off_the_layout:
  "typedLetters (restoreEvents 5 storedDoc (freshState sheet600))
     = [\<lparr> lt_char = CHR ''a'', lt_left = 0, lt_top = 36 \<rparr>,
        \<lparr> lt_char = space, lt_left = 14.48, lt_top = 36 \<rparr>,
        \<lparr> lt_char = CHR ''b'', lt_left = 22.88, lt_top = 36 \<rparr>]
   \<and> layoutEventsAligned sheet600 (events (restoreEvents 5 storedDoc (freshState sheet600))) Left
     = Some \<lparr> positions = [\<lparr> pos_x = 0, pos_y = 33.6 \<rparr>, \<lparr> pos_x = 14.48, pos_y = 33.6 \<rparr>,
                           \<lparr> pos_x = 20.48, pos_y = 33.6 \<rparr>],
              lineHeight = 33.6 \<rparr>"
proof -
  have p: "\<not> physicsEnabled (freshState sheet600)" and m: "\<not> measurer (caretState (freshState sheet600))"
    by (simp_all add: freshState_def)
  have f: "typedLetters (freshState sheet600) = []" "textArea (freshState sheet600) = sheet600"
    "caretState (freshState sheet600)
       = \<lparr> measurer = False, caret_x = 0, caret_y = 0, caret_lineHeight = 0, spaceWidth = 0, charWidth = 0 \<rparr>"
    by (simp_all add: freshState_def)
  have l: "typedLetters (restoreEvents 5 storedDoc (freshState sheet600))
     = [\<lparr> lt_char = CHR ''a'', lt_left = 0, lt_top = 36 \<rparr>,
        \<lparr> lt_char = space, lt_left = 14.48, lt_top = 36 \<rparr>,
        \<lparr> lt_char = CHR ''b'', lt_left = 22.88, lt_top = 36 \<rparr>]"
    unfolding restoreEvents_fields(1)[OF p m] f by (simp add: caretLetters_storedDoc)
  have "layoutEventsAligned sheet600 (events (restoreEvents 5 storedDoc (freshState sheet600))) Left
          = layoutEventsAligned sheet600 storedDoc Left"
    by (rule layout_reads_characters_only) (rule restoreEvents_fields(2)[OF p m])
  with l layout_storedDoc show ?thesis by simp
qed

subsection \<open>Restarting playback\<close>

lemma stopPlayback_fields:
  "parts (stopPlayback s) = parts s"
  "events (stopPlayback s) = events s"
  "tuning (stopPlayback s) = tuning s"
  "playheadStyle (stopPlayback s) = playheadStyle s"
  "sheetOffsetX (stopPlayback s) = sheetOffsetX s"
  "sheetOffsetY (stopPlayback s) = sheetOffsetY s"
  "ballTweens (stopPlayback s) = []"
  "trailDots (stopPlayback s) = 0"
  "\<not> transportStarted (stopPlayback s)"
  by (simp_all add: stopPlayback_def)

lemma playSequence_fields:
  assumes "buildMotionPathFromEvents (sheetOffsetX s) (sheetOffsetY s) (events s) = Some points"
  shows "parts (playSequence s) = parts s @ [smoothedSchedule (tuning s) (events s)]"
    and "timelineRel (playSequence s) = smoothedSchedule (tuning s) (events s)"
    and "ballTweens (playSequence s)
           = buildTweens (tuning s) (speedRatioOf (playheadStyle s))
               (totalDurOf (smoothedSchedule (tuning s) (events s))) 0
               (buildKeyframes points (smoothedSchedule (tuning s) (events s)))"
    and "events (playSequence s) = events s"
    and "tuning (playSequence s) = tuning s"
    and "playheadStyle (playSequence s) = playheadStyle s"
    and "sheetOffsetX (playSequence s) = sheetOffsetX s"
    and "sheetOffsetY (playSequence s) = sheetOffsetY s"
proof -
  from assms have ne: "filter (\<lambda>e. truthy (ev_note e) \<and> ev_char e \<noteq> newline) (events s) \<noteq> []"
    by (auto simp: buildMotionPathFromEvents_def Let_def split: if_splits)
  then have e: "events s \<noteq> []" by auto
  from ne have "\<exists>x \<in> set (events s). truthy (ev_note x)"
    by (auto simp: filter_empty_conv)
  then have n: "noteEvents (events s) \<noteq> []"
    by (auto simp: noteEvents_def filter_empty_conv)
  have ps: "playSequence s
      = (let s1 = stopPlayback s;
             rel = smoothedSchedule (tuning s1) (events s1);
             s2 = s1\<lparr> parts := parts s1 @ [rel] \<rparr>;
             totalDur = totalDurOf rel;
             s3 = s2\<lparr> ballTweens := [], trailDots := 0 \<rparr>;
             keyframes = buildKeyframes points rel;
             tws = buildTweens (tuning s3) (speedRatioOf (playheadStyle s3)) totalDur 0 keyframes
         in s3\<lparr> ballTweens := tws, timelineRel := rel, transportStarted := True \<rparr>)"
    using e n assms by (simp add: playSequence_def stopPlayback_fields)
  show "parts (playSequence s) = parts s @ [smoothedSchedule (tuning s) (events s)]"
    and "timelineRel (playSequence s) = smoothedSchedule (tuning s) (events s)"
    and "ballTweens (playSequence s)
           = buildTweens (tuning s) (speedRatioOf (playheadStyle s))
               (totalDurOf (smoothedSchedule (tuning s) (events s))) 0
               (buildKeyframes points (smoothedSchedule (tuning s) (events s)))"
    and "events (playSequence s) = events s"
    and "tuning (playSequence s) = tuning s"
    and "playheadStyle (playSequence s) = playheadStyle s"
    and "sheetOffsetX (playSequence s) = sheetOffsetX s"
    and "sheetOffsetY (playSequence s) = sheetOffsetY s"
    unfolding ps by (simp_all add: Let_def stopPlayback_fields)
qed

text \<open>No run removes a part from the transport.\<close>

lemma playSequence_keeps_parts: "take (length (parts s)) (parts (playSequence s)) = parts s"
  by (simp add: playSequence_def stopPlayback_def Let_def split: option.splits)

lemma typedAB_fields:
  "events typedAB = [evA, evB]" "tuning typedAB = defaultTuning" "parts typedAB = []"
  "sheetOffsetX typedAB = 0" "sheetOffsetY typedAB = 0" "playheadStyle typedAB = Some kitten"
  by (simp_all add: typedAB_def freshState_def)

lemma path_AB:
  "buildMotionPathFromEvents 0 0 [evA, evB]
     = Some [\<lparr> pt_x = 32, pt_y = 40 \<rparr>, \<lparr> pt_x = 46, pt_y = 40 \<rparr>]"
  by (simp add: buildMotionPathFromEvents_def evA_def evB_def newline_def)

lemma schedule_AB_notes:
  "length (smoothedSchedule defaultTuning [evA, evB]) = 2"
  "ev_note (smoothedSchedule defaultTuning [evA, evB] ! 0) = Some ''C4''"
  "ev_note (smoothedSchedule defaultTuning [evA, evB] ! 1) = Some ''D4''"
  by (simp_all add: smoothedSchedule_def noteEvents_def evA_def evB_def withTime_def Let_def)

text \<open>
  Claim C8. A second run kills the tweens of the ball, empties the trail and stops the
  transport, but the \<^verbatim>\<open>Tone.Part\<close> of the first run is neither disposed nor cancelled: after
  the restart the transport holds the part of the first run (part 0) next to that of the
  second, each with a trigger for both notes. Within the second run both notes are moreover
  sounded a second time by the callbacks of the tween (entry 0 on start, entry 1 on
  completion).
\<close>

theorem restart_leaves_first_part_scheduled:
  "ballTweens (stopPlayback (playSequence typedAB)) = []
   \<and> trailDots (stopPlayback (playSequence typedAB)) = 0
   \<and> partTriggers (parts (stopPlayback (playSequence typedAB))) = [(0, 0), (0, 1)]
   \<and> partTriggers (parts (playSequence (playSequence typedAB))) = [(0, 0), (0, 1), (1, 0), (1, 1)]
   \<and> tweenTriggers (timelineRel (playSequence (playSequence typedAB)))
                    (ballTweens (playSequence (playSequence typedAB))) = [0, 1]"
proof -
  let ?rel = "smoothedSchedule defaultTuning [evA, evB]"
  have p1: "buildMotionPathFromEvents (sheetOffsetX typedAB) (sheetOffsetY typedAB) (events typedAB)
              = Some [\<lparr> pt_x = 32, pt_y = 40 \<rparr>, \<lparr> pt_x = 46, pt_y = 40 \<rparr>]"
    by (simp add: typedAB_fields path_AB)
  note f1 = playSequence_fields[OF p1, unfolded typedAB_fields]
  have p2: "buildMotionPathFromEvents (sheetOffsetX (playSequence typedAB))
              (sheetOffsetY (playSequence typedAB)) (events (playSequence typedAB))
              = Some [\<lparr> pt_x = 32, pt_y = 40 \<rparr>, \<lparr> pt_x = 46, pt_y = 40 \<rparr>]"
    by (simp add: f1 path_AB)
  note f2 = playSequence_fields[OF p2, unfolded f1]
  have parts1: "parts (playSequence typedAB) = [?rel]" by (simp add: f1)
  have parts2: "parts (playSequence (playSequence typedAB)) = [?rel, ?rel]" by (simp add: f2)
  have idx2: "[0 ..< 2] = [0, Suc 0]" by (simp add: upt_rec)
  have t1: "partTriggers [?rel] = [(0, 0), (0, 1)]"
    using schedule_AB_notes by (simp add: partTriggers_def idx2)
  have t2: "partTriggers [?rel, ?rel] = [(0, 0), (0, 1), (1, 0), (1, 1)]"
    using schedule_AB_notes by (simp add: partTriggers_def idx2)
  have tw: "tweenTriggers (timelineRel (playSequence (playSequence typedAB)))
                    (ballTweens (playSequence (playSequence typedAB))) = [0, 1]"
    using schedule_AB_notes
    by (simp add: f2 tweenTriggers_def playNoteAtIndex_def buildKeyframes_def upt_rec makeTween_def Let_def)
  show ?thesis
    by (simp add: stopPlayback_fields parts1 parts2 t1 t2 tw)
qed

section \<open>Properties of the rounding to doubles\<close>

subsection \<open>Rounding to an integer\<close>

lemma roundTiesEven_cases:
  "roundTiesEven y = \<lfloor>y\<rfloor> \<and> y - of_int \<lfloor>y\<rfloor> \<le> 1 / 2
   \<or> roundTiesEven y = \<lfloor>y\<rfloor> + 1 \<and> 1 / 2 \<le> y - of_int \<lfloor>y\<rfloor>"
  by (auto simp: roundTiesEven_def Let_def)

lemma roundTiesEven_error: "\<bar>of_int (roundTiesEven y) - y\<bar> \<le> 1 / 2"
  using roundTiesEven_cases[of y] by (auto; linarith)

lemma roundTiesEven_of_int: "roundTiesEven (of_int m) = m"
  by (simp add: roundTiesEven_def)

lemma roundTiesEven_ge: "of_int m \<le> y \<Longrightarrow> m \<le> roundTiesEven y"
  using roundTiesEven_cases[of y] by (auto simp: le_floor_iff; linarith)

lemma roundTiesEven_le: "y \<le> of_int m \<Longrightarrow> roundTiesEven y \<le> m"
proof -
  assume a: "y \<le> of_int m"
  show ?thesis
  proof (cases "y = of_int m")
    case True then show ?thesis by (simp add: roundTiesEven_of_int)
  next
    case False
    with a have "y < of_int m" by simp
    then have "\<lfloor>y\<rfloor> < m" by (simp add: floor_less_iff)
    then show ?thesis using roundTiesEven_cases[of y] by auto
  qed
qed


subsection \<open>The binade\<close>

lemma two_powi_split: "(2::real) powi (a + b) = 2 powi a * 2 powi b"
  by (simp add: power_int_add)

lemma two_powi_mono: "a \<le> b \<Longrightarrow> (2::real) powi a \<le> 2 powi b"
  by (rule power_int_increasing) simp_all

lemma two_powi_strict_mono: "a < b \<Longrightarrow> (2::real) powi a < 2 powi b"
  by (rule power_int_strict_increasing) simp_all

lemma two_powi_less_imp: "(2::real) powi a < 2 powi b \<Longrightarrow> a < b"
  using two_powi_mono[of b a] by (cases "a < b") simp_all

lemma binadeUp_bounds: "1 \<le> x \<Longrightarrow> 2 powi binadeUp x \<le> x \<and> x < 2 powi (binadeUp x + 1)"
proof (induction x rule: binadeUp.induct)
  case (1 x)
  show ?case
  proof (cases "x < 2")
    case True
    then show ?thesis using "1.prems" by (simp add: binadeUp.simps[of x])
  next
    case False
    then have "1 \<le> x / 2" by simp
    from "1.IH"[OF False this]
    have "2 powi binadeUp (x / 2) \<le> x / 2" "x / 2 < 2 powi (binadeUp (x / 2) + 1)" by simp_all
    then have "2 powi binadeUp (x / 2) * 2 \<le> x" "x < 2 powi (binadeUp (x / 2) + 1) * 2" by simp_all
    moreover have "binadeUp x = binadeUp (x / 2) + 1" using False by (simp add: binadeUp.simps[of x])
    moreover have "(2::real) powi (binadeUp (x / 2) + 1) = 2 powi binadeUp (x / 2) * 2"
      "(2::real) powi (binadeUp (x / 2) + 1 + 1) = 2 powi (binadeUp (x / 2) + 1) * 2"
      by (simp_all only: two_powi_split[of _ 1] power_int_1_right)
    ultimately show ?thesis by (simp only:)
  qed
qed

lemma binadeDown_bounds:
  "0 < x \<Longrightarrow> x < 1 \<Longrightarrow> 2 powi binadeDown x \<le> x \<and> x < 2 powi (binadeDown x + 1)"
proof (induction x rule: binadeDown.induct)
  case (1 x)
  from "1.prems" have c: "\<not> (1 \<le> x \<or> x \<le> 0)" by simp
  show ?case
  proof (cases "2 * x < 1")
    case True
    from "1.IH"[OF c _ True] "1.prems"
    have "2 powi binadeDown (2 * x) \<le> 2 * x" "2 * x < 2 powi (binadeDown (2 * x) + 1)" by simp_all
    moreover have "(2::real) powi (binadeDown (2 * x) - 1) = 2 powi binadeDown (2 * x) / 2"
      by (simp add: power_int_diff)
    moreover have "(2::real) powi (binadeDown (2 * x) - 1 + 1) = 2 powi (binadeDown (2 * x) + 1) / 2"
      by (simp add: two_powi_split[of _ 1])
    ultimately show ?thesis using c by (simp add: binadeDown.simps[of x])
  next
    case False
    then have "binadeDown (2 * x) = 0" by (simp add: binadeDown.simps[of "2 * x"])
    then show ?thesis using c False "1.prems" by (simp add: binadeDown.simps[of x])
  qed
qed

lemma binade_bounds:
  assumes "x \<noteq> 0"
  shows "2 powi binade x \<le> \<bar>x\<bar>" and "\<bar>x\<bar> < 2 powi (binade x + 1)"
proof -
  have "2 powi binade x \<le> \<bar>x\<bar> \<and> \<bar>x\<bar> < 2 powi (binade x + 1)"
  proof (cases "1 \<le> \<bar>x\<bar>")
    case True
    then show ?thesis using binadeUp_bounds[of "\<bar>x\<bar>"] by (simp add: binade_def)
  next
    case False
    then show ?thesis using binadeDown_bounds[of "\<bar>x\<bar>"] assms by (simp add: binade_def)
  qed
  then show "2 powi binade x \<le> \<bar>x\<bar>" and "\<bar>x\<bar> < 2 powi (binade x + 1)" by simp_all
qed

lemma binade_eq:
  assumes "2 powi b \<le> \<bar>x\<bar>" and "\<bar>x\<bar> < 2 powi (b + 1)"
  shows "binade x = b"
proof -
  have "(0::real) < 2 powi b" by simp
  with assms(1) have "0 < \<bar>x\<bar>" by linarith
  then have x: "x \<noteq> 0" by simp
  have "(2::real) powi b < 2 powi (binade x + 1)"
    using assms(1) binade_bounds(2)[OF x] by linarith
  then have "b < binade x + 1" by (rule two_powi_less_imp)
  moreover have "(2::real) powi binade x < 2 powi (b + 1)"
    using assms(2) binade_bounds(1)[OF x] by linarith
  then have "binade x < b + 1" by (rule two_powi_less_imp)
  ultimately show ?thesis by simp
qed


lemma binade_floor_log: "x \<noteq> 0 \<Longrightarrow> binade x = \<lfloor>log 2 \<bar>x\<bar>\<rfloor>"
proof -
  assume x: "x \<noteq> 0"
  then have pos: "0 < \<bar>x\<bar>" by simp
  have "2 powr (of_int (binade x)) \<le> \<bar>x\<bar> \<and> \<bar>x\<bar> < 2 powr (of_int (binade x + 1))"
    using binade_bounds[OF x] by (simp only: powr_real_of_int' [of 2, simplified]) 
  then show ?thesis
    using floor_log_eq_powr_iff[OF pos, of 2 "binade x"] by simp
qed


subsection \<open>Rounding to a double\<close>

lemma fl_0: "fl 0 = 0"
  by (simp add: fl_def)

lemma fl_scaled:
  "x \<noteq> 0 \<Longrightarrow> fl x = of_int (roundTiesEven (x / 2 powi ulpExp x)) * 2 powi ulpExp x"
  by (simp add: fl_def)

lemma ulpExp_ge: "- 1074 \<le> ulpExp x" and ulpExp_ge_binade: "binade x - 52 \<le> ulpExp x"
  by (simp_all add: ulpExp_def)

lemma fl_error_ulp: "\<bar>fl x - x\<bar> \<le> 2 powi ulpExp x / 2"
proof (cases "x = 0")
  case True
  then show ?thesis by (simp add: fl_0)
next
  case False
  define p :: real where "p = 2 powi ulpExp x"
  have p: "0 < p" by (simp add: p_def)
  define r where "r = roundTiesEven (x / p)"
  have "fl x - x = (of_int r - x / p) * p"
    using p by (simp add: fl_scaled[OF False] r_def p_def field_simps)
  then have "\<bar>fl x - x\<bar> = \<bar>of_int r - x / p\<bar> * p"
    using p by (simp add: abs_mult)
  also have "\<dots> \<le> (1 / 2) * p"
    using roundTiesEven_error[of "x / p"] p unfolding r_def
    by (intro mult_right_mono) simp_all
  finally show ?thesis by (simp add: p_def)
qed

lemma fl_error: "\<bar>fl x - x\<bar> \<le> max (\<bar>x\<bar> / 2 ^ 53) (2 powi (- 1075))"
proof (cases "x = 0")
  case True
  then show ?thesis by (simp add: fl_0)
next
  case False
  show ?thesis
  proof (cases "- 1074 \<le> binade x - 52")
    case True
    then have e: "ulpExp x = binade x - 52" by (simp add: ulpExp_def)
    have "(2::real) powi (binade x - 52) / 2 = 2 powi binade x / 2 ^ 53"
      by (simp add: power_int_diff)
    also have "\<dots> \<le> \<bar>x\<bar> / 2 ^ 53"
      using binade_bounds(1)[OF False] by (simp add: divide_right_mono)
    finally show ?thesis using fl_error_ulp[of x] unfolding e by linarith
  next
    case False
    then have e: "ulpExp x = - 1074" by (simp add: ulpExp_def)
    have "(2::real) powi (- 1074) / 2 = 2 powi (- 1075)"
      using power_int_diff[of "2::real" "- 1074" 1] by simp
    then show ?thesis using fl_error_ulp[of x] unfolding e by linarith
  qed
qed

lemma fl_nonneg: "0 \<le> x \<Longrightarrow> 0 \<le> fl x"
proof (cases "x = 0")
  case True
  then show ?thesis by (simp add: fl_0)
next
  case False
  assume "0 \<le> x"
  then have "of_int 0 \<le> x / 2 powi ulpExp x" by simp
  then have "0 \<le> roundTiesEven (x / 2 powi ulpExp x)" by (rule roundTiesEven_ge)
  then show ?thesis by (simp add: fl_scaled[OF False])
qed

lemma fl_nonpos: "x \<le> 0 \<Longrightarrow> fl x \<le> 0"
proof (cases "x = 0")
  case True
  then show ?thesis by (simp add: fl_0)
next
  case False
  assume "x \<le> 0"
  then have "x / 2 powi ulpExp x \<le> of_int 0" by (simp add: divide_nonpos_pos)
  then have "roundTiesEven (x / 2 powi ulpExp x) \<le> 0" by (rule roundTiesEven_le)
  then show ?thesis by (simp add: fl_scaled[OF False] mult_nonpos_nonneg)
qed

lemma scaled_bound:
  assumes "x \<noteq> 0"
  shows "\<bar>x\<bar> / 2 powi ulpExp x \<le> 2 ^ 53"
proof -
  have "\<bar>x\<bar> \<le> 2 powi (binade x + 1)" using binade_bounds(2)[OF assms] by simp
  also have "\<dots> \<le> 2 powi (53 + ulpExp x)"
    using ulpExp_ge_binade[of x] by (intro two_powi_mono) simp
  also have "\<dots> = 2 ^ 53 * 2 powi ulpExp x" by (simp add: two_powi_split)
  finally show ?thesis by (simp add: field_simps)
qed

lemma mantissa_bound:
  assumes "x \<noteq> 0"
  shows "\<bar>roundTiesEven (x / 2 powi ulpExp x)\<bar> \<le> 2 ^ 53"
proof -
  have "\<bar>x / 2 powi ulpExp x\<bar> = \<bar>x\<bar> / 2 powi ulpExp x" by (simp add: abs_divide)
  then have b: "\<bar>x / 2 powi ulpExp x\<bar> \<le> 2 ^ 53" using scaled_bound[OF assms] by simp
  then have "x / 2 powi ulpExp x \<le> 2 ^ 53" and "- (2 ^ 53) \<le> x / 2 powi ulpExp x"
    by linarith+
  then have "x / 2 powi ulpExp x \<le> of_int (2 ^ 53)"
    and l: "of_int (- (2 ^ 53)) \<le> x / 2 powi ulpExp x" by simp_all
  then have u: "roundTiesEven (x / 2 powi ulpExp x) \<le> 2 ^ 53" by (intro roundTiesEven_le)
  note l
  then have "- (2 ^ 53) \<le> roundTiesEven (x / 2 powi ulpExp x)" by (rule roundTiesEven_ge)
  with u show ?thesis by simp
qed

lemma fl_repr:
  assumes "v = of_int m * 2 powi k" and "ulpExp v \<le> k"
  shows "fl v = v"
proof (cases "v = 0")
  case True
  then show ?thesis by (simp add: fl_0)
next
  case False
  define n where "n = nat (k - ulpExp v)"
  from assms(2) have k: "k = int n + ulpExp v" by (simp add: n_def)
  have "(2::real) powi k = 2 ^ n * 2 powi ulpExp v"
    by (subst k) (simp add: two_powi_split)
  then have v: "v = of_int (m * 2 ^ n) * 2 powi ulpExp v"
    using assms(1) by (simp add: mult.assoc)
  have "(2::real) powi ulpExp v \<noteq> 0" by simp
  with v have "v / 2 powi ulpExp v = of_int (m * 2 ^ n)"
    by (metis nonzero_mult_div_cancel_right)
  then have "roundTiesEven (v / 2 powi ulpExp v) = m * 2 ^ n"
    using roundTiesEven_of_int[of "m * 2 ^ n"] by simp
  then show ?thesis using v by (simp add: fl_scaled[OF False])
qed

lemma fl_idem: "fl (fl x) = fl x"
proof (cases "fl x = 0")
  case True
  then show ?thesis by (simp add: fl_0)
next
  case False
  then have x: "x \<noteq> 0" using fl_0 by auto
  define e where "e = ulpExp x"
  define m where "m = roundTiesEven (x / 2 powi e)"
  have v: "fl x = of_int m * 2 powi e" by (simp add: fl_scaled[OF x] m_def e_def)
  have mb: "\<bar>m\<bar> \<le> 2 ^ 53" using mantissa_bound[OF x] by (simp add: m_def e_def)
  have e: "- 1074 \<le> e" using ulpExp_ge[of x] by (simp add: e_def)
  show ?thesis
  proof (cases "\<bar>m\<bar> = 2 ^ 53")
    case True
    have "\<bar>fl x\<bar> = of_int \<bar>m\<bar> * 2 powi e" by (simp add: v abs_mult)
    also have "\<dots> = 2 powi (53 + e)" by (simp add: True two_powi_split)
    finally have a: "\<bar>fl x\<bar> = 2 powi (e + 53)" by (simp add: add.commute)
    have "binade (fl x) = e + 53"
      by (rule binade_eq) (simp_all add: a two_powi_strict_mono)
    then have u: "ulpExp (fl x) = e + 1" using e by (simp add: ulpExp_def)
    have "(2::real) powi e * 2 = 2 powi (e + 1)" by (simp add: two_powi_split)
    then have "fl x = of_int (m div 2) * 2 powi (e + 1)"
    proof -
      have "even \<bar>m\<bar>" unfolding True by simp
      then have "even m" by simp
      then have "m = (m div 2) * 2" by simp
      then have "of_int m = (of_int (m div 2) :: real) * 2" by (metis of_int_mult of_int_numeral)
      then show ?thesis using \<open>(2::real) powi e * 2 = 2 powi (e + 1)\<close> v
        by (simp add: mult.assoc)
    qed
    then show ?thesis using u by (intro fl_repr[where m="m div 2" and k="e + 1"]) simp_all
  next
    case False
    with mb have "\<bar>m\<bar> < 2 ^ 53" by simp
    then have lt: "(of_int \<bar>m\<bar> :: real) < 2 ^ 53" by (metis of_int_less_numeral_power_cancel_iff)
    have "\<bar>fl x\<bar> = of_int \<bar>m\<bar> * 2 powi e" by (simp add: v abs_mult)
    also have "\<dots> < 2 ^ 53 * (2::real) powi e"
      using lt by (intro mult_strict_right_mono) simp_all
    also have "\<dots> = 2 powi (53 + e)" by (simp add: two_powi_split)
    finally have "\<bar>fl x\<bar> < 2 powi (53 + e)" .
    with binade_bounds(1)[OF \<open>fl x \<noteq> 0\<close>] have "(2::real) powi binade (fl x) < 2 powi (53 + e)"
      by linarith
    then have "binade (fl x) < 53 + e" by (rule two_powi_less_imp)
    then have "ulpExp (fl x) \<le> e" using e by (simp add: ulpExp_def)
    then show ?thesis using v by (intro fl_repr[where m=m and k=e]) simp_all
  qed
qed


lemma fl_eval:
  assumes "2 powi b \<le> \<bar>x\<bar>" and "\<bar>x\<bar> < 2 powi (b + 1)" and "- 1022 \<le> b"
  shows "fl x = of_int (roundTiesEven (x / 2 powi (b - 52))) * 2 powi (b - 52)"
proof -
  have b: "binade x = b" using assms(1,2) by (rule binade_eq)
  have "(0::real) < 2 powi b" by simp
  with assms(1) have "0 < \<bar>x\<bar>" by linarith
  then have "x \<noteq> 0" by simp
  then show ?thesis using assms(3) by (simp add: fl_scaled ulpExp_def b)
qed

section \<open>Properties of the schedule in doubles\<close>

text \<open>With the identity for the rounding, the schedule is the one of exact arithmetic.\<close>

lemma length_clampFromR: "length (clampFromR rnd tn prev rs) = length rs"
  by (induction rs arbitrary: prev) (simp_all add: Let_def)

lemma clampFromR_exact: "clampFromR (\<lambda>x. x) tn prev rs = clampFrom tn prev rs"
  by (induction rs arbitrary: prev) (simp_all add: Let_def)

lemma smoothedScheduleR_exact: "smoothedScheduleR (\<lambda>x. x) tn evs = smoothedSchedule tn evs"
proof -
  have f: "firstPassR (\<lambda>x. x) es = firstPass es" for es by (cases es) simp_all
  have s: "secondPassR (\<lambda>x. x) tn rs = secondPass tn rs" for rs
    by (cases rs) (simp_all add: clampFromR_exact)
  show ?thesis by (simp add: smoothedScheduleR_def smoothedSchedule_def f s)
qed

lemma subnormal_half_ulp: "(2::real) powi (- 1075) = 2 powi (- 1022) / 2 ^ 53"
  using power_int_diff[of "2::real" "- 1022" 53] by simp

lemma fl_add_error:
  assumes "2 powi (- 1022) \<le> m" and "0 \<le> a"
  shows "\<bar>fl (a + m) - (a + m)\<bar> \<le> (a + m) / 2 ^ 53"
proof -
  have "(0::real) < 2 powi (- 1022)" by simp
  with assms have pos: "0 < a + m" by linarith
  have "(2::real) powi (- 1075) \<le> (a + m) / 2 ^ 53"
    unfolding subnormal_half_ulp using assms by (intro divide_right_mono) simp_all
  then have "max (\<bar>a + m\<bar> / 2 ^ 53) (2 powi (- 1075)) = (a + m) / 2 ^ 53"
    using pos by (simp add: max_def)
  then show ?thesis using fl_error[of "a + m"] by simp
qed

lemma clamp_step:
  fixes mn mx prev t :: real
  assumes mn: "2 powi (- 1022) \<le> mn" and mx: "mn \<le> mx" and prev: "0 \<le> prev" and t: "0 \<le> t"
  defines "t' \<equiv> (if fl (t - prev) < mn then fl (prev + mn)
                  else if fl (t - prev) > mx then fl (prev + mx) else t)"
  shows "0 \<le> t'"
    and "mn - (prev + mx) / 2 ^ 52 \<le> t' - prev"
    and "t' - prev \<le> mx + (prev + mx) / 2 ^ 52"
    and "prev < mn * (2 ^ 53 - 1) \<Longrightarrow> prev < t'"
proof -
  have n: "(2::real) ^ 53 = 9007199254740992" "(2::real) ^ 52 = 4503599627370496" by simp_all
  have p0: "(0::real) < 2 powi (- 1022)" by simp
  with mn have mn0: "0 < mn" by linarith
  with mx have mx0: "0 < mx" by linarith
  have mx': "2 powi (- 1022) \<le> mx" using mn mx by linarith
  have s: "(2::real) powi (- 1075) \<le> mn / 2 ^ 53"
    unfolding subnormal_half_ulp using mn by (intro divide_right_mono) simp_all
  consider (lo) "fl (t - prev) < mn" | (hi) "\<not> fl (t - prev) < mn" "fl (t - prev) > mx"
    | (keep) "mn \<le> fl (t - prev)" "fl (t - prev) \<le> mx" by linarith
  then have "0 \<le> t' \<and> mn - (prev + mx) / 2 ^ 52 \<le> t' - prev
           \<and> t' - prev \<le> mx + (prev + mx) / 2 ^ 52
           \<and> (prev < mn * (2 ^ 53 - 1) \<longrightarrow> prev < t')"
  proof cases
    case lo
    then have t': "t' = fl (prev + mn)" by (simp add: t'_def)
    have e: "\<bar>t' - (prev + mn)\<bar> \<le> (prev + mn) / 2 ^ 53"
      unfolding t' by (rule fl_add_error[OF mn prev])
    have "0 \<le> t'" unfolding t' using prev mn0 by (intro fl_nonneg) simp
    moreover have "mn - (prev + mx) / 2 ^ 52 \<le> t' - prev" using e mx prev mn0 unfolding n by argo
    moreover have "t' - prev \<le> mx + (prev + mx) / 2 ^ 52" using e mx prev mn0 unfolding n by argo
    moreover have "prev < mn * (2 ^ 53 - 1) \<longrightarrow> prev < t'" using e mx prev mn0 unfolding n by argo
    ultimately show ?thesis by blast
  next
    case hi
    then have t': "t' = fl (prev + mx)" by (simp add: t'_def)
    have e: "\<bar>t' - (prev + mx)\<bar> \<le> (prev + mx) / 2 ^ 53"
      unfolding t' by (rule fl_add_error[OF mx' prev])
    have "0 \<le> t'" unfolding t' using prev mx0 by (intro fl_nonneg) simp
    moreover have "mn - (prev + mx) / 2 ^ 52 \<le> t' - prev" using e mx prev mn0 unfolding n by argo
    moreover have "t' - prev \<le> mx + (prev + mx) / 2 ^ 52" using e mx prev mn0 unfolding n by argo
    moreover have "prev < mn * (2 ^ 53 - 1) \<longrightarrow> prev < t'" using e mx prev mn0 unfolding n by argo
    ultimately show ?thesis by blast
  next
    case keep
    then have t': "t' = t" by (simp add: t'_def)
    define d where "d = t - prev"
    have d0: "0 < d"
    proof (rule ccontr)
      assume "\<not> 0 < d"
      then have "fl d \<le> 0" by (intro fl_nonpos) simp
      with keep(1) mn0 show False by (simp add: d_def)
    qed
    have e: "\<bar>fl d - d\<bar> \<le> max (d / 2 ^ 53) (2 powi (- 1075))"
      using fl_error[of d] d0 by simp
    have k: "mn \<le> fl d" "fl d \<le> mx" using keep by (simp_all add: d_def)
    have lower: "mn - mn / 2 ^ 53 \<le> d"
    proof (cases "d / 2 ^ 53 \<le> 2 powi (- 1075)")
      case True
      then have "\<bar>fl d - d\<bar> \<le> 2 powi (- 1075)" using e by (simp add: max_def)
      with s k show ?thesis unfolding n by argo
    next
      case False
      then have "\<bar>fl d - d\<bar> \<le> d / 2 ^ 53" using e by (simp add: max_def)
      with k mn0 d0 show ?thesis unfolding n by argo
    qed
    have upper: "d \<le> mx + mx / 2 ^ 52"
    proof (cases "d / 2 ^ 53 \<le> 2 powi (- 1075)")
      case True
      then have "\<bar>fl d - d\<bar> \<le> 2 powi (- 1075)" using e by (simp add: max_def)
      with s k mx mx0 show ?thesis unfolding n by argo
    next
      case False
      then have "\<bar>fl d - d\<bar> \<le> d / 2 ^ 53" using e by (simp add: max_def)
      with k mx0 d0 show ?thesis unfolding n by argo
    qed
    have "0 \<le> t'" using t t' by simp
    moreover have "mn - (prev + mx) / 2 ^ 52 \<le> t' - prev"
      using lower mx prev mn0 unfolding t' d_def n by argo
    moreover have "t' - prev \<le> mx + (prev + mx) / 2 ^ 52"
      using upper mx prev mn0 unfolding t' d_def n by argo
    moreover have "prev < t'" using d0 unfolding t' d_def by simp
    ultimately show ?thesis by blast
  qed
  then show "0 \<le> t'"
    and "mn - (prev + mx) / 2 ^ 52 \<le> t' - prev"
    and "t' - prev \<le> mx + (prev + mx) / 2 ^ 52"
    and "prev < mn * (2 ^ 53 - 1) \<Longrightarrow> prev < t'" by blast+
qed

lemma clampFromR_gaps:
  assumes mn: "2 powi (- 1022) \<le> minTimeBetweenNotes tn"
      and mx: "minTimeBetweenNotes tn \<le> maxTimeBetweenNotes tn"
  shows "0 \<le> prev \<Longrightarrow> \<forall>r \<in> set rs. 0 \<le> rel_t r \<Longrightarrow> i < length rs \<Longrightarrow>
         minTimeBetweenNotes tn
             - ((prev # map rel_t (clampFromR fl tn prev rs)) ! i + maxTimeBetweenNotes tn) / 2 ^ 52
           \<le> (prev # map rel_t (clampFromR fl tn prev rs)) ! Suc i
               - (prev # map rel_t (clampFromR fl tn prev rs)) ! i
       \<and> (prev # map rel_t (clampFromR fl tn prev rs)) ! Suc i
            - (prev # map rel_t (clampFromR fl tn prev rs)) ! i
           \<le> maxTimeBetweenNotes tn
               + ((prev # map rel_t (clampFromR fl tn prev rs)) ! i + maxTimeBetweenNotes tn) / 2 ^ 52
       \<and> ((prev # map rel_t (clampFromR fl tn prev rs)) ! i < minTimeBetweenNotes tn * (2 ^ 53 - 1)
            \<longrightarrow> (prev # map rel_t (clampFromR fl tn prev rs)) ! i
                  < (prev # map rel_t (clampFromR fl tn prev rs)) ! Suc i)"
proof (induction rs arbitrary: prev i)
  case Nil
  then show ?case by simp
next
  case (Cons r rs)
  define t' where "t' = (if fl (rel_t r - prev) < minTimeBetweenNotes tn
                           then fl (prev + minTimeBetweenNotes tn)
                         else if fl (rel_t r - prev) > maxTimeBetweenNotes tn
                           then fl (prev + maxTimeBetweenNotes tn)
                         else rel_t r)"
  have unfold: "map rel_t (clampFromR fl tn prev (r # rs)) = t' # map rel_t (clampFromR fl tn t' rs)"
    by (simp add: Let_def t'_def)
  from Cons.prems(2) have r0: "0 \<le> rel_t r" and rs0: "\<forall>r \<in> set rs. 0 \<le> rel_t r" by simp_all
  note step = clamp_step[OF mn mx Cons.prems(1) r0, folded t'_def]
  show ?case
  proof (cases i)
    case 0
    then show ?thesis using step by (simp add: unfold del: clampFromR.simps)
  next
    case (Suc j)
    with Cons.prems have "j < length rs" by simp
    from Cons.IH[OF step(1) rs0 this] show ?thesis by (simp add: unfold Suc del: clampFromR.simps)
  qed
qed

lemma smoothedScheduleR_times:
  "noteEvents evs = e0 # es \<Longrightarrow>
   map rel_t (smoothedScheduleR fl tn evs)
     = 0 # map rel_t (clampFromR fl tn 0 (map (\<lambda>e. withTime e (max 0 (fl (ev_time e - ev_time e0)))) es))"
  by (simp add: smoothedScheduleR_def withTime_def fl_0)

text \<open>
  Claim C1, as amended. The batch scheduler takes the note-bearing events, gives each the time
  \<open>max 0 (time - first time)\<close>, the difference rounded to a double (so the first is at 0),
  and then runs the smoothing pass in order, every sum and difference rounded to a double. With
  thresholds \<open>2 powi - 1022 \<le> minTimeBetweenNotes \<le> maxTimeBetweenNotes\<close> (the smallest
  normal double; 0.08 and 2.0 by default) every consecutive gap \<open>b - a\<close> of the smoothed times
  lies within the two thresholds up to the rounding error \<open>(a + maxTimeBetweenNotes) / 2 ^ 52\<close>,
  and the times are strictly increasing as long as they stay below
  \<open>minTimeBetweenNotes * (2 ^ 53 - 1)\<close>. The raw timestamps need not even be increasing.
\<close>

theorem smoothed_gaps_in_doubles:
  assumes "2 powi (- 1022) \<le> minTimeBetweenNotes tn"
      and "minTimeBetweenNotes tn \<le> maxTimeBetweenNotes tn"
      and "ts = map rel_t (smoothedScheduleR fl tn evs)"
  shows "length ts = length (noteEvents evs)
       \<and> map rel_t (firstPassR fl (noteEvents evs))
           = map (\<lambda>e. max 0 (fl (ev_time e - ev_time (hd (noteEvents evs))))) (noteEvents evs)
       \<and> (ts \<noteq> [] \<longrightarrow> ts ! 0 = 0)
       \<and> (\<forall>i. Suc i < length ts \<longrightarrow>
             minTimeBetweenNotes tn - (ts ! i + maxTimeBetweenNotes tn) / 2 ^ 52 \<le> ts ! Suc i - ts ! i
           \<and> ts ! Suc i - ts ! i \<le> maxTimeBetweenNotes tn + (ts ! i + maxTimeBetweenNotes tn) / 2 ^ 52
           \<and> (ts ! i < minTimeBetweenNotes tn * (2 ^ 53 - 1) \<longrightarrow> ts ! i < ts ! Suc i))"
proof (cases "noteEvents evs")
  case Nil
  then show ?thesis using assms(3) by (simp add: smoothedScheduleR_def)
next
  case (Cons e0 es)
  let ?rs = "map (\<lambda>e. withTime e (max 0 (fl (ev_time e - ev_time e0)))) es"
  have ts: "ts = 0 # map rel_t (clampFromR fl tn 0 ?rs)"
    using assms(3) smoothedScheduleR_times[OF Cons] by simp
  have len: "length ts = length (noteEvents evs)"
    by (simp add: ts Cons length_clampFromR)
  have fp: "map rel_t (firstPassR fl (noteEvents evs))
           = map (\<lambda>e. max 0 (fl (ev_time e - ev_time (hd (noteEvents evs))))) (noteEvents evs)"
    by (simp add: Cons withTime_def)
  have nonneg: "\<forall>r \<in> set ?rs. 0 \<le> rel_t r" by (simp add: withTime_def)
  have gaps: "minTimeBetweenNotes tn - (ts ! i + maxTimeBetweenNotes tn) / 2 ^ 52 \<le> ts ! Suc i - ts ! i
           \<and> ts ! Suc i - ts ! i \<le> maxTimeBetweenNotes tn + (ts ! i + maxTimeBetweenNotes tn) / 2 ^ 52
           \<and> (ts ! i < minTimeBetweenNotes tn * (2 ^ 53 - 1) \<longrightarrow> ts ! i < ts ! Suc i)"
    if "Suc i < length ts" for i
  proof -
    from that have "i < length ?rs" by (simp add: ts length_clampFromR)
    from clampFromR_gaps[OF assms(1,2) order_refl nonneg this]
    show ?thesis unfolding ts by blast
  qed
  show ?thesis using len fp gaps by (simp add: ts)
qed

text \<open>The literals of the example as doubles.\<close>

lemma fl_threshold_literals:
  "fl (2 / 25) = 5764607523034235 / 72057594037927936" "fl 2 = 2"
  using fl_eval[of "- 4" "2 / 25"] fl_eval[of 1 2] by (simp_all add: roundTiesEven_def Let_def)

lemma fl_time_literals:
  "fl (3 / 5) = 5404319552844595 / 9007199254740992"
  "fl (61 / 100) = 5494391545392005 / 9007199254740992"
  using fl_eval[of "- 1" "3 / 5"] fl_eval[of "- 1" "61 / 100"] by (simp_all add: roundTiesEven_def Let_def)

lemma fl_time_doubles:
  "fl (5404319552844595 / 9007199254740992) = 5404319552844595 / 9007199254740992"
  "fl (5494391545392005 / 9007199254740992) = 5494391545392005 / 9007199254740992"
  using fl_idem[of "3 / 5"] fl_idem[of "61 / 100"] by (simp_all only: fl_time_literals)

lemma fl_schedule_steps:
  "fl (45035996273705 / 4503599627370496) = 45035996273705 / 4503599627370496"
  "fl (48999163945790995 / 72057594037927936) = 3062447746611937 / 4503599627370496"
  "fl (720575940379279 / 9007199254740992) = 720575940379279 / 9007199254740992"
  using fl_eval[of "- 7" "45035996273705 / 4503599627370496"]
        fl_eval[of "- 1" "48999163945790995 / 72057594037927936"]
        fl_eval[of "- 4" "720575940379279 / 9007199254740992"]
  by (simp_all add: roundTiesEven_def Let_def)

lemma thresholds_defaultTuning:
  "minTimeBetweenNotes (thresholdsAsDoubles defaultTuning) = 5764607523034235 / 72057594037927936"
  "maxTimeBetweenNotes (thresholdsAsDoubles defaultTuning) = 2"
  by (simp_all add: thresholdsAsDoubles_def defaultTuning_def fl_threshold_literals)

lemma threeNotes_times:
  "map ev_time threeNotes = [0, 5404319552844595 / 2 ^ 53, 5494391545392005 / 2 ^ 53]"
  by (simp add: threeNotes_def noteAt_def fl_0 fl_time_literals)

lemma threeNotes_schedule:
  "map rel_t (smoothedScheduleR fl (thresholdsAsDoubles defaultTuning) threeNotes)
     = [0, 5404319552844595 / 2 ^ 53, 3062447746611937 / 2 ^ 52]"
  by (simp add: smoothedScheduleR_def threeNotes_def noteAt_def noteEvents_def withTime_def fl_0
                Let_def fl_time_literals fl_time_doubles fl_schedule_steps thresholds_defaultTuning)

text \<open>
  Claim C1, counterexample. Three notes typed at the strictly increasing times 0, 0.6 and 0.61
  with the default thresholds: the third is pulled forward to the double nearest to
  \<open>0.6 + 0.08\<close>, which is 0.6799999999999999, and its gap to the second,
  0.07999999999999996, is below the minimum 0.08, whether the difference is taken exactly or
  in doubles.
\<close>

theorem gap_below_minimum_in_doubles:
  "map ev_time threeNotes = [0, 5404319552844595 / 2 ^ 53, 5494391545392005 / 2 ^ 53]
   \<and> map rel_t (smoothedScheduleR fl (thresholdsAsDoubles defaultTuning) threeNotes)
       = [0, 5404319552844595 / 2 ^ 53, 3062447746611937 / 2 ^ 52]
   \<and> map rel_t (smoothedScheduleR fl (thresholdsAsDoubles defaultTuning) threeNotes) ! 2
       - map rel_t (smoothedScheduleR fl (thresholdsAsDoubles defaultTuning) threeNotes) ! 1
        < minTimeBetweenNotes (thresholdsAsDoubles defaultTuning)
   \<and> fl (map rel_t (smoothedScheduleR fl (thresholdsAsDoubles defaultTuning) threeNotes) ! 2
         - map rel_t (smoothedScheduleR fl (thresholdsAsDoubles defaultTuning) threeNotes) ! 1)
        < minTimeBetweenNotes (thresholdsAsDoubles defaultTuning)"
  by (simp add: threeNotes_times threeNotes_schedule thresholds_defaultTuning fl_schedule_steps)

theorem smoothed_gaps_in_doubles_witness:
  "2 powi (- 1022) \<le> minTimeBetweenNotes (thresholdsAsDoubles defaultTuning)
   \<and> minTimeBetweenNotes (thresholdsAsDoubles defaultTuning)
        \<le> maxTimeBetweenNotes (thresholdsAsDoubles defaultTuning)
   \<and> map rel_t (smoothedScheduleR fl (thresholdsAsDoubles defaultTuning) threeNotes)
       = [0, 5404319552844595 / 2 ^ 53, 3062447746611937 / 2 ^ 52]
   \<and> (5764607523034235 / 2 ^ 56 - (5404319552844595 / 2 ^ 53 + 2) / 2 ^ 52 :: real)
        \<le> 3062447746611937 / 2 ^ 52 - 5404319552844595 / 2 ^ 53
   \<and> (5404319552844595 / 2 ^ 53 :: real) < 3062447746611937 / 2 ^ 52"
proof -
  have "(2::real) powi (- 1022) \<le> 2 powi (- 4)" by (rule two_powi_mono) simp
  also have "\<dots> \<le> 5764607523034235 / 72057594037927936" by simp
  finally have h1: "2 powi (- 1022) \<le> minTimeBetweenNotes (thresholdsAsDoubles defaultTuning)"
    by (simp only: thresholds_defaultTuning)
  have h2: "minTimeBetweenNotes (thresholdsAsDoubles defaultTuning)
              \<le> maxTimeBetweenNotes (thresholdsAsDoubles defaultTuning)"
    by (simp add: thresholds_defaultTuning)
  have s: "map rel_t (smoothedScheduleR fl (thresholdsAsDoubles defaultTuning) threeNotes)
             = [0, 5404319552844595 / 2 ^ 53, 3062447746611937 / 2 ^ 52]"
    by (rule threeNotes_schedule)
  from smoothed_gaps_in_doubles[OF h1 h2 s[symmetric]]
  have "Suc 1 < length [0, 5404319552844595 / 2 ^ 53, 3062447746611937 / 2 ^ 52 :: real] \<longrightarrow>
          minTimeBetweenNotes (thresholdsAsDoubles defaultTuning)
            - ([0, 5404319552844595 / 2 ^ 53, 3062447746611937 / 2 ^ 52 :: real] ! 1
                 + maxTimeBetweenNotes (thresholdsAsDoubles defaultTuning)) / 2 ^ 52
            \<le> [0, 5404319552844595 / 2 ^ 53, 3062447746611937 / 2 ^ 52 :: real] ! Suc 1
                - [0, 5404319552844595 / 2 ^ 53, 3062447746611937 / 2 ^ 52] ! 1
        \<and> ([0, 5404319552844595 / 2 ^ 53, 3062447746611937 / 2 ^ 52 :: real] ! 1
               < minTimeBetweenNotes (thresholdsAsDoubles defaultTuning) * (2 ^ 53 - 1)
             \<longrightarrow> [0, 5404319552844595 / 2 ^ 53, 3062447746611937 / 2 ^ 52 :: real] ! 1
                   < [0, 5404319552844595 / 2 ^ 53, 3062447746611937 / 2 ^ 52] ! Suc 1)"
    by blast
  then have "(5764607523034235 / 2 ^ 56 - (5404319552844595 / 2 ^ 53 + 2) / 2 ^ 52 :: real)
        \<le> 3062447746611937 / 2 ^ 52 - 5404319552844595 / 2 ^ 53
   \<and> (5404319552844595 / 2 ^ 53 :: real) < 3062447746611937 / 2 ^ 52"
    by (simp add: thresholds_defaultTuning)
  with h1 h2 s show ?thesis by blast
qed

section \<open>Properties of the layout in doubles\<close>

text \<open>With the identity for the rounding, the layout is the one of exact arithmetic.\<close>

lemma measureCharR_exact: "measureCharR (\<lambda>x. x) c ch = measureChar c ch"
  by (simp add: measureCharR_def measureChar_def)

lemma addEventR_exact: "addEventR (\<lambda>x. x) c ev s = addEvent c ev s"
  by (simp add: addEventR_def addEvent_def measureCharR_exact)

lemma buildLinesR_exact: "buildLinesR (\<lambda>x. x) c evs = buildLines c evs"
proof -
  have "addEventR (\<lambda>x. x) c = addEvent c" by (intro ext) (rule addEventR_exact)
  then show ?thesis by (simp add: buildLinesR_def buildLines_def)
qed

lemma placeGlyphsR_exact: "placeGlyphsR (\<lambda>x. x) x y gap gs = placeGlyphs x y gap gs"
  by (induction gs arbitrary: x) (simp_all add: add.assoc)

lemma lineStartR_exact: "lineStartR (\<lambda>x. x) al W isLast l = lineStart al W isLast l"
  by (simp add: lineStartR_def lineStart_def)

lemma placeLinesR_exact: "placeLinesR (\<lambda>x. x) al W lh y ls = placeLines al W lh y ls"
  by (induction ls arbitrary: y)
     (simp_all add: lineStartR_exact placeGlyphsR_exact split: option.split prod.split)

lemma layoutEventsAlignedR_exact: "layoutEventsAlignedR (\<lambda>x. x) c evs al = layoutEventsAligned c evs al"
  by (simp add: layoutEventsAlignedR_def layoutEventsAligned_def lineHeightOfR_def lineHeightOf_def
                placeLinesR_exact buildLinesR_exact)

subsection \<open>The line-building loop\<close>











subsection \<open>The invariant of the loop in doubles\<close>











subsection \<open>Placement under left alignment\<close>







subsection \<open>Every glyph of a line has passed the test\<close>



subsection \<open>Wrapping in doubles\<close>



text \<open>The doubles of the example: the letter spacing 0.48, the measured width 14.48 and its sums.\<close>

lemma fl_layout_literals:
  "fl (12 / 25) = 1080863910568919 / 2251799813685248"
  "fl (7 / 5) = 3152519739159347 / 2251799813685248"
  "fl (9457559217478041 / 281474976710656) = 1182194902184755 / 35184372088832"
  "fl 14 = 14"
  using fl_eval[of "- 2" "12 / 25"] fl_eval[of 0 "7 / 5"]
        fl_eval[of 5 "9457559217478041 / 281474976710656"] fl_eval[of 3 14]
  by (simp_all add: roundTiesEven_def Let_def)












text \<open>
  The wrap itself depends on the rounding: five glyphs of \<open>10.72 + 0.48\<close> pixels fill 56 pixels
  exactly, so exact arithmetic keeps them on one line, while the doubles sum up to
  56.00000000000001 and the fifth glyph is wrapped.
\<close>

lemma fl_sheet56_steps:
  "fl (268 / 25) = 6034823500676465 / 562949953421312"
  "fl (25220157913274779 / 2251799813685248) = 6305039478318695 / 562949953421312"
  "fl (6305039478318695 / 562949953421312) = 6305039478318695 / 562949953421312"
  "fl (6305039478318695 / 281474976710656) = 6305039478318695 / 281474976710656"
  "fl (18915118434956085 / 562949953421312) = 4728779608739021 / 140737488355328"
  "fl (25220157913274779 / 562949953421312) = 6305039478318695 / 140737488355328"
  "fl (31525197391593475 / 562949953421312) = 7881299347898369 / 140737488355328"
  using fl_eval[of 3 "268 / 25"]
        fl_eval[of 3 "25220157913274779 / 2251799813685248"]
        fl_eval[of 3 "6305039478318695 / 562949953421312"]
        fl_eval[of 4 "6305039478318695 / 281474976710656"]
        fl_eval[of 5 "18915118434956085 / 562949953421312"]
        fl_eval[of 5 "25220157913274779 / 562949953421312"]
        fl_eval[of 5 "31525197391593475 / 562949953421312"]
  by (simp_all add: roundTiesEven_def Let_def)

lemma measureCharR_sheet56d:
  "ch \<noteq> newline \<Longrightarrow> ch \<noteq> space \<Longrightarrow>
   measureCharR fl sheet56d ch = 6305039478318695 / 562949953421312"
  by (simp add: measureCharR_def sheet56d_def letterSpacingOf_def fl_layout_literals fl_sheet56_steps)

lemma fifth_glyph_wraps_in_doubles:
  "map (\<lambda>l. length (glyphs l)) (buildLines sheet56 (typed ''abcde'')) = [5]"
  "map (\<lambda>l. length (glyphs l)) (buildLinesR fl sheet56d (typed ''abcde'')) = [4, 1]"
proof -
  show "map (\<lambda>l. length (glyphs l)) (buildLines sheet56 (typed ''abcde'')) = [5]"
    by (simp add: buildLines_def typed_def sheet56_def addEvent_def pushLine_def initialBuild_def
                  measureChar_def letterSpacingOf_def newline_def space_def Let_def)
  have w: "rectWidth sheet56d = 56" by (simp add: sheet56d_def)
  show "map (\<lambda>l. length (glyphs l)) (buildLinesR fl sheet56d (typed ''abcde'')) = [4, 1]"
    by (simp add: buildLinesR_def typed_def addEventR_def pushLine_def initialBuild_def
                  measureCharR_sheet56d newline_def space_def Let_def w fl_sheet56_steps)
qed

end
